theory Spec2Isabelle
  imports Main "HOL-Library.AList"
begin

section \<open>Data model\<close>

text \<open>
  The source represents an action by one of the two string literals
  \<^verbatim>\<open>'cooperate'\<close> and \<^verbatim>\<open>'defect'\<close>; no other value is ever produced by a
  strategy. \<open>action_str\<close> gives the string back (it is the key of the payoff
  dictionaries and the payload of a \<^verbatim>\<open>KeyError\<close>).
\<close>

datatype action = Cooperate | Defect

fun action_str :: "action \<Rightarrow> string" where
  "action_str Cooperate = ''cooperate''"
| "action_str Defect = ''defect''"

text \<open>The Python exceptions the modelled code can raise.\<close>

datatype error = ValueError string | KeyError string | IndexError

text \<open>
  The six classes registered with the factory in \<^verbatim>\<open>agent.py\<close>. The base class
  \<^verbatim>\<open>Agent\<close> is never registered, so no agent of a game is a bare \<^verbatim>\<open>Agent\<close>.
\<close>

datatype agent_class =
  TitForTatAgent | RandomAgent | TitForTwoTatsAgent | GrudgerAgent | CooperatorAgent | DefectorAgent

text \<open>
  A Python \<^verbatim>\<open>dict\<close> is an association list in insertion order: \<open>map_of\<close> reads a
  key, \<open>AList.update\<close> overwrites the value of a present key in place and appends an
  absent key at the end.
\<close>

type_synonym 'v pydict = "(string \<times> 'v) list"

record Agent =
  cls :: agent_class
  name :: string
  history :: "action list pydict"
  oponent_history :: "action list pydict"
  score :: int
  label :: string
  description :: string

text \<open>
  The payoff matrix of the configuration: a dictionary of dictionaries keyed by the two
  action strings. An entry is the two-element list that \<^verbatim>\<open>play_round\<close> unpacks into
  \<^verbatim>\<open>payoff1, payoff2\<close>, here a pair. Either dictionary may lack a key. Payoffs and
  scores are Python integers, which are unbounded and add exactly. The source accepts
  any JSON number and would add floats as well; floating-point payoffs, whose sums depend
  on the order of addition, are not covered by this theory, and every statement about
  scores below is a statement about integer payoffs.
\<close>

type_synonym payoffs = "action \<rightharpoonup> (action \<rightharpoonup> int \<times> int)"

record PrisonersDilemma =
  agents :: "Agent list"
  payoff_matrix :: payoffs
  rounds :: int

text \<open>
  The global numpy random generator, as the sequence of the outcomes its future
  \<^verbatim>\<open>np.random.choice(['cooperate', 'defect'])\<close> calls will return; a call takes the
  first outcome and leaves the rest.
\<close>

type_synonym rng = "nat \<Rightarrow> action"

definition random_choice :: "rng \<Rightarrow> action \<times> rng" where
  "random_choice r = (r 0, \<lambda>n. r (Suc n))"

section \<open>Agents (agent.py)\<close>

definition Agent_init :: "agent_class \<Rightarrow> string \<Rightarrow> Agent" where
  "Agent_init c n =
     \<lparr>cls = c, name = n, history = [], oponent_history = [], score = 0,
      label = [], description = []\<rparr>"

fun class_label :: "agent_class \<Rightarrow> string" where
  "class_label TitForTatAgent = ''TFT''"
| "class_label RandomAgent = ''R''"
| "class_label TitForTwoTatsAgent = ''TF2T''"
| "class_label GrudgerAgent = ''G''"
| "class_label CooperatorAgent = ''C''"
| "class_label DefectorAgent = ''D''"

fun class_description :: "agent_class \<Rightarrow> string" where
  "class_description TitForTatAgent =
     ''Cooperates on the first move, then mimics the opponent'' @ [CHR 0x27] @ ''s previous move.''"
| "class_description RandomAgent = ''Randomly chooses to cooperate or defect.''"
| "class_description TitForTwoTatsAgent =
     ''Cooperates until the opponent defects twice in a row, then defects.''"
| "class_description GrudgerAgent =
     ''Cooperates until the opponent defects, then defects for the rest of the game.''"
| "class_description CooperatorAgent = ''Always cooperates.''"
| "class_description DefectorAgent = ''Always defects.''"

text \<open>The constructor of a registered class: the base initialiser, then label and description.\<close>

definition new_agent :: "agent_class \<Rightarrow> string \<Rightarrow> Agent" where
  "new_agent c n = (Agent_init c n)\<lparr>label := class_label c, description := class_description c\<rparr>"

text \<open>\<^verbatim>\<open>d[k]\<close> on a dictionary and \<^verbatim>\<open>xs[-k]\<close> on a list, with their exceptions.\<close>

definition dict_get :: "'v pydict \<Rightarrow> string \<Rightarrow> error + 'v" where
  "dict_get d k = (case map_of d k of None \<Rightarrow> Inl (KeyError k) | Some v \<Rightarrow> Inr v)"

definition from_end :: "'a list \<Rightarrow> nat \<Rightarrow> error + 'a" where
  "from_end xs k = (if 1 \<le> k \<and> k \<le> length xs then Inr (xs ! (length xs - k)) else Inl IndexError)"

definition TitForTat_choose :: "Agent \<Rightarrow> string \<Rightarrow> error + action" where
  "TitForTat_choose a opponent_name =
     (if map_of (history a) opponent_name \<noteq> None then
        (case dict_get (oponent_history a) opponent_name of
           Inl e \<Rightarrow> Inl e
         | Inr oh \<Rightarrow> from_end oh 1)
      else Inr Cooperate)"

definition TitForTwoTats_choose :: "Agent \<Rightarrow> string \<Rightarrow> error + action" where
  "TitForTwoTats_choose a opponent_name =
     (case map_of (history a) opponent_name of
        None \<Rightarrow> Inr Cooperate
      | Some h \<Rightarrow>
          if length h \<ge> 2 then
            (case dict_get (oponent_history a) opponent_name of
               Inl e \<Rightarrow> Inl e
             | Inr oh \<Rightarrow>
                 (case from_end oh 1 of
                    Inl e \<Rightarrow> Inl e
                  | Inr x1 \<Rightarrow>
                      if x1 = Defect then
                        (case from_end oh 2 of
                           Inl e \<Rightarrow> Inl e
                         | Inr x2 \<Rightarrow> if x2 = Defect then Inr Defect else Inr Cooperate)
                      else Inr Cooperate))
          else Inr Cooperate)"

definition Grudger_choose :: "Agent \<Rightarrow> string \<Rightarrow> error + action" where
  "Grudger_choose a opponent_name =
     (if map_of (history a) opponent_name \<noteq> None then
        (case dict_get (oponent_history a) opponent_name of
           Inl e \<Rightarrow> Inl e
         | Inr oh \<Rightarrow> if Defect \<in> set oh then Inr Defect else Inr Cooperate)
      else Inr Cooperate)"

text \<open>
  \<^verbatim>\<open>choose_action\<close>, dispatched on the class. Only \<^verbatim>\<open>RandomAgent\<close> touches the random
  generator; no class changes the agent.
\<close>

definition choose_action :: "Agent \<Rightarrow> string \<Rightarrow> rng \<Rightarrow> (error + action) \<times> rng" where
  "choose_action a opponent_name r =
     (case cls a of
        TitForTatAgent \<Rightarrow> (TitForTat_choose a opponent_name, r)
      | RandomAgent \<Rightarrow> (case random_choice r of (x, r') \<Rightarrow> (Inr x, r'))
      | TitForTwoTatsAgent \<Rightarrow> (TitForTwoTats_choose a opponent_name, r)
      | GrudgerAgent \<Rightarrow> (Grudger_choose a opponent_name, r)
      | CooperatorAgent \<Rightarrow> (Inr Cooperate, r)
      | DefectorAgent \<Rightarrow> (Inr Defect, r))"

text \<open>
  \<^verbatim>\<open>update_history\<close> mutates the agent; the model returns the agent as the call leaves
  it, with the exception if one was raised (the first append is done before the second
  dictionary is read).
\<close>

definition update_history :: "Agent \<Rightarrow> string \<Rightarrow> action \<Rightarrow> action \<Rightarrow> error option \<times> Agent" where
  "update_history a opponent_name act oponent_action =
     (let a1 = (if map_of (history a) opponent_name = None
                then a\<lparr>history := AList.update opponent_name [] (history a),
                       oponent_history := AList.update opponent_name [] (oponent_history a)\<rparr>
                else a)
      in case dict_get (history a1) opponent_name of
           Inl e \<Rightarrow> (Some e, a1)
         | Inr h \<Rightarrow>
             (let a2 = a1\<lparr>history := AList.update opponent_name (h @ [act]) (history a1)\<rparr>
              in case dict_get (oponent_history a2) opponent_name of
                   Inl e \<Rightarrow> (Some e, a2)
                 | Inr oh \<Rightarrow>
                     (None, a2\<lparr>oponent_history :=
                                 AList.update opponent_name (oh @ [oponent_action]) (oponent_history a2)\<rparr>)))"

text \<open>
  \<^verbatim>\<open>update_score\<close>: \<^verbatim>\<open>self.score += payoff\<close>, on integers (the docstring's type of
  \<^verbatim>\<open>payoff\<close>); the source does not check the type.
\<close>

definition update_score :: "Agent \<Rightarrow> int \<Rightarrow> Agent" where
  "update_score a payoff = a\<lparr>score := score a + payoff\<rparr>"

subsection \<open>The factory\<close>

record AgentFactory =
  agent_classes :: "(string \<Rightarrow> Agent) pydict"

definition AgentFactory_init :: AgentFactory where
  "AgentFactory_init = \<lparr>agent_classes = []\<rparr>"

definition register :: "AgentFactory \<Rightarrow> string \<Rightarrow> (string \<Rightarrow> Agent) \<Rightarrow> AgentFactory" where
  "register f n agent_class = f\<lparr>agent_classes := AList.update n agent_class (agent_classes f)\<rparr>"

definition not_registered :: "string \<Rightarrow> error" where
  "not_registered n = ValueError (''Agent class '' @ [CHR 0x27] @ n @ [CHR 0x27] @ '' not registered.'')"

definition create :: "AgentFactory \<Rightarrow> string \<Rightarrow> string \<Rightarrow> error + Agent" where
  "create f n arg =
     (case map_of (agent_classes f) n of
        None \<Rightarrow> Inl (not_registered n)
      | Some agent_class \<Rightarrow> Inr (agent_class arg))"

text \<open>The module's factory instance after the six decorators have run.\<close>

definition factory :: AgentFactory where
  "factory =
     register (register (register (register (register (register AgentFactory_init
       ''TitForTat'' (new_agent TitForTatAgent))
       ''Random'' (new_agent RandomAgent))
       ''TitForTwoTats'' (new_agent TitForTwoTatsAgent))
       ''Grudger'' (new_agent GrudgerAgent))
       ''Cooperator'' (new_agent CooperatorAgent))
       ''Defector'' (new_agent DefectorAgent)"

section \<open>The game (run.py)\<close>

text \<open>
  The configuration dictionary read from JSON. A top-level key may be absent; an entry
  of \<^verbatim>\<open>agents\<close> has its two string fields.
\<close>

record agent_config =
  cfg_type :: string
  cfg_name :: string

record config =
  cfg_agents :: "agent_config list option"
  cfg_payoff_matrix :: "payoffs option"
  cfg_rounds :: "int option"

text \<open>The list comprehension of the constructor: it stops at the first exception.\<close>

fun create_agents :: "AgentFactory \<Rightarrow> agent_config list \<Rightarrow> error + Agent list" where
  "create_agents f [] = Inr []"
| "create_agents f (c # cs) =
     (case create f (cfg_type c) (cfg_name c) of
        Inl e \<Rightarrow> Inl e
      | Inr a \<Rightarrow> (case create_agents f cs of Inl e \<Rightarrow> Inl e | Inr as \<Rightarrow> Inr (a # as)))"

definition PrisonersDilemma_init :: "config \<Rightarrow> AgentFactory \<Rightarrow> error + PrisonersDilemma" where
  "PrisonersDilemma_init cfg f =
     (case cfg_agents cfg of
        None \<Rightarrow> Inl (KeyError ''agents'')
      | Some cs \<Rightarrow>
          (case create_agents f cs of
             Inl e \<Rightarrow> Inl e
           | Inr as \<Rightarrow>
               (case cfg_payoff_matrix cfg of
                  None \<Rightarrow> Inl (KeyError ''payoff_matrix'')
                | Some pm \<Rightarrow>
                    (case cfg_rounds cfg of
                       None \<Rightarrow> Inl (KeyError ''rounds'')
                     | Some r \<Rightarrow> Inr \<lparr>agents = as, payoff_matrix = pm, rounds = r\<rparr>))))"

definition get_payoffs :: "PrisonersDilemma \<Rightarrow> action \<Rightarrow> action \<Rightarrow> error + int \<times> int" where
  "get_payoffs g action1 action2 =
     (case payoff_matrix g action1 of
        None \<Rightarrow> Inl (KeyError (action_str action1))
      | Some row \<Rightarrow>
          (case row action2 of
             None \<Rightarrow> Inl (KeyError (action_str action2))
           | Some p \<Rightarrow> Inr p))"

text \<open>
  \<^verbatim>\<open>play_round(agent1, agent2)\<close>. The two arguments are references to agent objects of
  the game; the model passes their positions \<open>i\<close> and \<open>j\<close> in \<open>agents\<close> and writes
  every mutation back at that position, one after the other as the source does. The
  result is the exception raised (if any), the game as the call leaves it, and the
  random generator.
\<close>

definition set_agent :: "PrisonersDilemma \<Rightarrow> nat \<Rightarrow> Agent \<Rightarrow> PrisonersDilemma" where
  "set_agent g i a = g\<lparr>agents := (agents g)[i := a]\<rparr>"

text \<open>
  The part of \<^verbatim>\<open>play_round\<close> after the two actions are chosen: both histories,
  one payoff lookup, both scores.
\<close>

definition record_round ::
  "nat \<Rightarrow> nat \<Rightarrow> PrisonersDilemma \<Rightarrow> action \<Rightarrow> action \<Rightarrow> error option \<times> PrisonersDilemma" where
  "record_round i j g action1 action2 =
     (case update_history (agents g ! i) (name (agents g ! j)) action1 action2 of
        (Some e, a1) \<Rightarrow> (Some e, set_agent g i a1)
      | (None, a1) \<Rightarrow>
     (let g1 = set_agent g i a1 in
      case update_history (agents g1 ! j) (name (agents g1 ! i)) action2 action1 of
        (Some e, a2) \<Rightarrow> (Some e, set_agent g1 j a2)
      | (None, a2) \<Rightarrow>
     (let g2 = set_agent g1 j a2 in
      case get_payoffs g2 action1 action2 of
        Inl e \<Rightarrow> (Some e, g2)
      | Inr (payoff1, payoff2) \<Rightarrow>
     (let g3 = set_agent g2 i (update_score (agents g2 ! i) payoff1);
          g4 = set_agent g3 j (update_score (agents g3 ! j) payoff2)
      in (None, g4)))))"

definition play_round ::
  "nat \<Rightarrow> nat \<Rightarrow> PrisonersDilemma \<Rightarrow> rng \<Rightarrow> error option \<times> PrisonersDilemma \<times> rng" where
  "play_round i j g r =
     (case choose_action (agents g ! i) (name (agents g ! j)) r of
        (Inl e, r1) \<Rightarrow> (Some e, g, r1)
      | (Inr action1, r1) \<Rightarrow>
     (case choose_action (agents g ! j) (name (agents g ! i)) r1 of
        (Inl e, r2) \<Rightarrow> (Some e, g, r2)
      | (Inr action2, r2) \<Rightarrow>
     (case record_round i j g action1 action2 of (e, g') \<Rightarrow> (e, g', r2))))"

text \<open>
  \<^verbatim>\<open>play_round\<close> with its first two statements exchanged: \<^verbatim>\<open>agent2\<close> chooses
  before \<^verbatim>\<open>agent1\<close>. It is not in the source; it states what exchanging the two
  calls would compute.
\<close>

definition play_round_swapped ::
  "nat \<Rightarrow> nat \<Rightarrow> PrisonersDilemma \<Rightarrow> rng \<Rightarrow> error option \<times> PrisonersDilemma \<times> rng" where
  "play_round_swapped i j g r =
     (case choose_action (agents g ! j) (name (agents g ! i)) r of
        (Inl e, r1) \<Rightarrow> (Some e, g, r1)
      | (Inr action2, r1) \<Rightarrow>
     (case choose_action (agents g ! i) (name (agents g ! j)) r1 of
        (Inl e, r2) \<Rightarrow> (Some e, g, r2)
      | (Inr action1, r2) \<Rightarrow>
     (case record_round i j g action1 action2 of (e, g') \<Rightarrow> (e, g', r2))))"

text \<open>
  A sequence of \<^verbatim>\<open>play_round\<close> calls, stopping at the first exception. The first
  component of the result lists the calls that were made.
\<close>

fun play_rounds ::
  "(nat \<times> nat) list \<Rightarrow> PrisonersDilemma \<Rightarrow> rng \<Rightarrow>
     (nat \<times> nat) list \<times> error option \<times> PrisonersDilemma \<times> rng" where
  "play_rounds [] g r = ([], None, g, r)"
| "play_rounds ((i, j) # cs) g r =
     (case play_round i j g r of
        (Some e, g', r') \<Rightarrow> ([(i, j)], Some e, g', r')
      | (None, g', r') \<Rightarrow>
          (case play_rounds cs g' r' of (tr, res) \<Rightarrow> ((i, j) # tr, res)))"

text \<open>
  The three nested loops of \<^verbatim>\<open>run\<close>: \<^verbatim>\<open>range(self.rounds)\<close> is empty for a
  non-positive count, \<^verbatim>\<open>enumerate(self.agents)\<close> gives every position \<open>i\<close>, and
  \<^verbatim>\<open>self.agents[i+1:]\<close> the positions after it. No call changes the length of
  \<open>agents\<close>, so the calls the loops make are known when the loops start.
\<close>

definition round_pairs :: "nat \<Rightarrow> (nat \<times> nat) list" where
  "round_pairs n = [(i, j). i \<leftarrow> [0..<n], j \<leftarrow> [Suc i..<n]]"

definition run_calls :: "PrisonersDilemma \<Rightarrow> (nat \<times> nat) list" where
  "run_calls g = concat (replicate (nat (rounds g)) (round_pairs (length (agents g))))"

definition run ::
  "PrisonersDilemma \<Rightarrow> rng \<Rightarrow> (nat \<times> nat) list \<times> error option \<times> PrisonersDilemma \<times> rng" where
  "run g r = play_rounds (run_calls g) g r"

section \<open>Properties of the recorded state\<close>

text \<open>The sequence stored under a key, empty when the key is absent.\<close>

definition hist_of :: "action list pydict \<Rightarrow> string \<Rightarrow> action list" where
  "hist_of d k = (case map_of d k of None \<Rightarrow> [] | Some h \<Rightarrow> h)"

text \<open>
  The invariant of one agent: both dictionaries have each key once, they have the same
  keys, and under every key the two sequences are equally long and not empty.
\<close>

definition agent_inv :: "Agent \<Rightarrow> bool" where
  "agent_inv a =
     (distinct (map fst (history a)) \<and> distinct (map fst (oponent_history a)) \<and>
      (\<forall>k. rel_option (\<lambda>h oh. length h = length oh \<and> h \<noteq> [])
             (map_of (history a) k) (map_of (oponent_history a) k)))"

text \<open>
  What \<^verbatim>\<open>update_history\<close> leaves when it does not raise: one action appended to each
  of the two sequences under the opponent's key.
\<close>

definition appended :: "Agent \<Rightarrow> string \<Rightarrow> action \<Rightarrow> action \<Rightarrow> Agent" where
  "appended a k x y =
     a\<lparr>history := AList.update k (hist_of (history a) k @ [x]) (history a),
       oponent_history := AList.update k (hist_of (oponent_history a) k @ [y]) (oponent_history a)\<rparr>"

text \<open>
  A game after \<^verbatim>\<open>play_round\<close> has extended the histories of the agents at positions
  \<open>i\<close> and \<open>j\<close> with the actions \<open>x\<close> and \<open>y\<close>, and after it has added the two payoffs
  to their scores.
\<close>

definition recorded :: "nat \<Rightarrow> nat \<Rightarrow> PrisonersDilemma \<Rightarrow> action \<Rightarrow> action \<Rightarrow> PrisonersDilemma" where
  "recorded i j g x y =
     g\<lparr>agents := (agents g)[i := appended (agents g ! i) (name (agents g ! j)) x y,
                             j := appended (agents g ! j) (name (agents g ! i)) y x]\<rparr>"

definition scored :: "nat \<Rightarrow> nat \<Rightarrow> PrisonersDilemma \<Rightarrow> int \<Rightarrow> int \<Rightarrow> PrisonersDilemma" where
  "scored i j g p1 p2 =
     g\<lparr>agents := (agents g)[i := update_score (agents g ! i) p1,
                             j := update_score (agents g ! j) p2]\<rparr>"

text \<open>Every agent of the game satisfies the agent invariant.\<close>

definition agents_inv :: "PrisonersDilemma \<Rightarrow> bool" where
  "agents_inv g = list_all agent_inv (agents g)"

text \<open>A game as the constructor leaves it: no history, no score.\<close>

definition fresh :: "PrisonersDilemma \<Rightarrow> bool" where
  "fresh g = list_all (\<lambda>a. history a = [] \<and> oponent_history a = [] \<and> score a = 0) (agents g)"

text \<open>Calls on two different positions of a game with \<open>n\<close> agents, the first one smaller.\<close>

definition valid_calls :: "nat \<Rightarrow> (nat \<times> nat) list \<Rightarrow> bool" where
  "valid_calls n cs = list_all (\<lambda>(i, j). i < j \<and> j < n) cs"

text \<open>
  How many of the calls \<open>cs\<close> append to the sequence that the agent at position \<open>m\<close>
  keeps under the key \<open>k\<close>, when \<open>ns\<close> are the agents' names.
\<close>

fun plays_against :: "string list \<Rightarrow> nat \<Rightarrow> string \<Rightarrow> (nat \<times> nat) list \<Rightarrow> nat" where
  "plays_against ns m k [] = 0"
| "plays_against ns m k ((i, j) # cs) =
     (if m = i \<and> ns ! j = k then 1 else 0) + (if m = j \<and> ns ! i = k then 1 else 0) +
     plays_against ns m k cs"

text \<open>
  The agent states a program can produce: a constructor of a registered class, followed
  by calls of \<^verbatim>\<open>update_history\<close> and \<^verbatim>\<open>update_score\<close>.
\<close>

inductive agent_reachable :: "Agent \<Rightarrow> bool" where
  constructed: "agent_reachable (new_agent c n)"
| history_updated:
    "agent_reachable a \<Longrightarrow> update_history a opponent_name act oponent_action = (e, a') \<Longrightarrow>
     agent_reachable a'"
| score_updated: "agent_reachable a \<Longrightarrow> agent_reachable (update_score a payoff)"

text \<open>
  The game states a program can produce: the constructor with the module's factory,
  followed by \<^verbatim>\<open>play_round\<close> calls on agents of the game (also twice the same agent),
  whether they return or raise.
\<close>

inductive reachable :: "PrisonersDilemma \<Rightarrow> bool" where
  constructed_game: "PrisonersDilemma_init cfg factory = Inr g \<Longrightarrow> reachable g"
| round_played:
    "reachable g \<Longrightarrow> i < length (agents g) \<Longrightarrow> j < length (agents g) \<Longrightarrow>
     play_round i j g r = (e, g', r') \<Longrightarrow> reachable g'"

text \<open>
  Consistency of the recorded sequences of two different agents \<open>A\<close> and \<open>B\<close>: what
  \<open>A\<close> recorded as its own actions against \<open>B\<close> is what \<open>B\<close> recorded as its opponent's
  actions against \<open>A\<close> (both absent, or the same sequence), and \<open>A\<close>'s two sequences
  against \<open>B\<close> have the same length.
\<close>

definition history_consistent :: "PrisonersDilemma \<Rightarrow> bool" where
  "history_consistent g =
     (\<forall>i \<in> {0..<length (agents g)}. \<forall>j \<in> {0..<length (agents g)}. i \<noteq> j \<longrightarrow>
        map_of (history (agents g ! i)) (name (agents g ! j)) =
          map_of (oponent_history (agents g ! j)) (name (agents g ! i)) \<and>
        length (hist_of (history (agents g ! i)) (name (agents g ! j))) =
          length (hist_of (oponent_history (agents g ! i)) (name (agents g ! j))))"

text \<open>
  The payoff the payoff model assigns to an agent that played \<open>x\<close> against \<open>y\<close>: the
  first component of the entry for \<open>(x, y)\<close>, if the entry is there.
\<close>

definition own_payoff :: "payoffs \<Rightarrow> action \<Rightarrow> action \<Rightarrow> int option" where
  "own_payoff pm x y = (case pm x of None \<Rightarrow> None | Some row \<Rightarrow> map_option fst (row y))"

definition payoff_or_zero :: "payoffs \<Rightarrow> action \<Rightarrow> action \<Rightarrow> int" where
  "payoff_or_zero pm x y = (case own_payoff pm x y of None \<Rightarrow> 0 | Some p \<Rightarrow> p)"

text \<open>
  The score recomputed from the retained histories: the sum over every opponent key of
  \<open>history\<close> and every round index \<open>k\<close> recorded under it of the payoff for
  \<open>(history[o][k], oponent_history[o][k])\<close>.
\<close>

definition recorded_payoffs :: "payoffs \<Rightarrow> action list \<Rightarrow> action list \<Rightarrow> int" where
  "recorded_payoffs pm h oh = (\<Sum>k \<leftarrow> [0..<length h]. payoff_or_zero pm (h ! k) (oh ! k))"

definition recomputed_score :: "payoffs \<Rightarrow> Agent \<Rightarrow> int" where
  "recomputed_score pm a =
     (\<Sum>(opp, h) \<leftarrow> history a. recorded_payoffs pm h (hist_of (oponent_history a) opp))"

text \<open>Every recorded pair of actions of the agent has its entry in the payoff matrix.\<close>

definition payoffs_recorded :: "payoffs \<Rightarrow> Agent \<Rightarrow> bool" where
  "payoffs_recorded pm a =
     (\<forall>(opp, h) \<in> set (history a). \<forall>k \<in> {0..<length h}.
        own_payoff pm (h ! k) (hist_of (oponent_history a) opp ! k) \<noteq> None)"

text \<open>The invariant that ties an agent's score to its recorded rounds.\<close>

definition score_ok :: "payoffs \<Rightarrow> Agent \<Rightarrow> bool" where
  "score_ok pm a = (agent_inv a \<and> score a = recomputed_score pm a \<and> payoffs_recorded pm a)"

text \<open>
  The symmetry the configuration is expected to have: the entry for \<open>(y, x)\<close> is the
  entry for \<open>(x, y)\<close> with its two payoffs exchanged (and is absent when that one is).
\<close>

definition payoff_entry :: "payoffs \<Rightarrow> action \<Rightarrow> action \<Rightarrow> (int \<times> int) option" where
  "payoff_entry pm x y = (case pm x of None \<Rightarrow> None | Some row \<Rightarrow> row y)"

definition symmetric_payoffs :: "payoffs \<Rightarrow> bool" where
  "symmetric_payoffs pm =
     list_all (\<lambda>x. list_all (\<lambda>y. payoff_entry pm y x = map_option prod.swap (payoff_entry pm x y))
        [Cooperate, Defect]) [Cooperate, Defect]"

text \<open>A factory on which exactly the listed registrations were made, in order.\<close>

definition register_all :: "(string \<times> (string \<Rightarrow> Agent)) list \<Rightarrow> AgentFactory" where
  "register_all regs = foldl (\<lambda>f (n, c). register f n c) AgentFactory_init regs"

section \<open>Example configurations\<close>

text \<open>
  Concrete configurations, each with the game the constructor builds from it and, where
  a theorem needs it, the game a run leaves. \<open>standard_payoffs\<close> is the usual matrix
  CC (3, 3), CD (0, 5), DC (5, 0), DD (1, 1).
\<close>

definition standard_payoffs :: payoffs where
  "standard_payoffs =
     [Cooperate \<mapsto> [Cooperate \<mapsto> (3, 3), Defect \<mapsto> (0, 5)],
      Defect \<mapsto> [Cooperate \<mapsto> (5, 0), Defect \<mapsto> (1, 1)]]"

definition tft_vs_defector :: config where
  "tft_vs_defector =
     \<lparr>cfg_agents = Some [\<lparr>cfg_type = ''TitForTat'', cfg_name = ''tft''\<rparr>,
                         \<lparr>cfg_type = ''Defector'', cfg_name = ''d''\<rparr>],
      cfg_payoff_matrix = Some standard_payoffs, cfg_rounds = Some 3\<rparr>"

text \<open>A random generator; the deterministic classes never read it.\<close>

definition no_coins :: rng where
  "no_coins = (\<lambda>_. Cooperate)"

text \<open>
  A TitForTwoTats agent after two rounds against one opponent that played \<open>y1\<close>, then
  \<open>y2\<close>.
\<close>

definition tf2t_after :: "action \<Rightarrow> action \<Rightarrow> Agent" where
  "tf2t_after y1 y2 =
     appended (appended (new_agent TitForTwoTatsAgent ''tf2t'') ''opp'' Cooperate y1) ''opp'' Cooperate y2"

definition tft_vs_defector_game :: PrisonersDilemma where
  "tft_vs_defector_game =
     \<lparr>agents = [new_agent TitForTatAgent ''tft'', new_agent DefectorAgent ''d''],
      payoff_matrix = standard_payoffs, rounds = 3\<rparr>"

definition tft_vs_defector_final :: PrisonersDilemma where
  "tft_vs_defector_final =
     \<lparr>agents =
        [(new_agent TitForTatAgent ''tft'')
           \<lparr>history := [(''d'', [Cooperate, Defect, Defect])],
            oponent_history := [(''d'', [Defect, Defect, Defect])], score := 2\<rparr>,
         (new_agent DefectorAgent ''d'')
           \<lparr>history := [(''tft'', [Defect, Defect, Defect])],
            oponent_history := [(''tft'', [Cooperate, Defect, Defect])], score := 7\<rparr>],
      payoff_matrix = standard_payoffs, rounds = 3\<rparr>"

text \<open>The six registrations of \<^verbatim>\<open>agent.py\<close>, and a configuration naming a seventh kind.\<close>

definition module_registrations :: "(string \<times> (string \<Rightarrow> Agent)) list" where
  "module_registrations =
     [(''TitForTat'', new_agent TitForTatAgent), (''Random'', new_agent RandomAgent),
      (''TitForTwoTats'', new_agent TitForTwoTatsAgent), (''Grudger'', new_agent GrudgerAgent),
      (''Cooperator'', new_agent CooperatorAgent), (''Defector'', new_agent DefectorAgent)]"

definition pavlov_config :: config where
  "pavlov_config =
     \<lparr>cfg_agents = Some [\<lparr>cfg_type = ''TitForTat'', cfg_name = ''tft''\<rparr>,
                         \<lparr>cfg_type = ''Pavlov'', cfg_name = ''p''\<rparr>],
      cfg_payoff_matrix = Some standard_payoffs, cfg_rounds = Some 3\<rparr>"

text \<open>The standard matrix without its entry for (defect, defect).\<close>

definition payoffs_without_dd :: payoffs where
  "payoffs_without_dd =
     [Cooperate \<mapsto> [Cooperate \<mapsto> (3, 3), Defect \<mapsto> (0, 5)],
      Defect \<mapsto> [Cooperate \<mapsto> (5, 0)]]"

definition tft_vs_defector_without_dd :: config where
  "tft_vs_defector_without_dd =
     \<lparr>cfg_agents = Some [\<lparr>cfg_type = ''TitForTat'', cfg_name = ''tft''\<rparr>,
                         \<lparr>cfg_type = ''Defector'', cfg_name = ''d''\<rparr>],
      cfg_payoff_matrix = Some payoffs_without_dd, cfg_rounds = Some 3\<rparr>"

definition game_without_dd :: PrisonersDilemma where
  "game_without_dd =
     \<lparr>agents = [new_agent TitForTatAgent ''tft'', new_agent DefectorAgent ''d''],
      payoff_matrix = payoffs_without_dd, rounds = 3\<rparr>"

text \<open>A matrix that is not symmetric: (cooperate, cooperate) pays 3 and 4.\<close>

definition skewed_payoffs :: payoffs where
  "skewed_payoffs =
     [Cooperate \<mapsto> [Cooperate \<mapsto> (3, 4), Defect \<mapsto> (0, 5)],
      Defect \<mapsto> [Cooperate \<mapsto> (5, 0), Defect \<mapsto> (1, 1)]]"

definition cooperators_skewed :: config where
  "cooperators_skewed =
     \<lparr>cfg_agents = Some [\<lparr>cfg_type = ''Cooperator'', cfg_name = ''c1''\<rparr>,
                         \<lparr>cfg_type = ''Cooperator'', cfg_name = ''c2''\<rparr>],
      cfg_payoff_matrix = Some skewed_payoffs, cfg_rounds = Some 1\<rparr>"

definition cooperators_skewed_game :: PrisonersDilemma where
  "cooperators_skewed_game =
     \<lparr>agents = [new_agent CooperatorAgent ''c1'', new_agent CooperatorAgent ''c2''],
      payoff_matrix = skewed_payoffs, rounds = 1\<rparr>"

text \<open>TitForTat against Defector after a second run of three rounds.\<close>

definition tft_vs_defector_twice :: PrisonersDilemma where
  "tft_vs_defector_twice =
     \<lparr>agents =
        [(new_agent TitForTatAgent ''tft'')
           \<lparr>history := [(''d'', [Cooperate, Defect, Defect, Defect, Defect, Defect])],
            oponent_history := [(''d'', [Defect, Defect, Defect, Defect, Defect, Defect])], score := 5\<rparr>,
         (new_agent DefectorAgent ''d'')
           \<lparr>history := [(''tft'', [Defect, Defect, Defect, Defect, Defect, Defect])],
            oponent_history := [(''tft'', [Cooperate, Defect, Defect, Defect, Defect, Defect])],
            score := 10\<rparr>],
      payoff_matrix = standard_payoffs, rounds = 3\<rparr>"

text \<open>Three Cooperators, two of them with the same name.\<close>

definition shared_name :: config where
  "shared_name =
     \<lparr>cfg_agents = Some [\<lparr>cfg_type = ''Cooperator'', cfg_name = ''a''\<rparr>,
                         \<lparr>cfg_type = ''Cooperator'', cfg_name = ''a''\<rparr>,
                         \<lparr>cfg_type = ''Cooperator'', cfg_name = ''b''\<rparr>],
      cfg_payoff_matrix = Some standard_payoffs, cfg_rounds = Some 1\<rparr>"

definition shared_name_game :: PrisonersDilemma where
  "shared_name_game =
     \<lparr>agents = [new_agent CooperatorAgent ''a'', new_agent CooperatorAgent ''a'',
                new_agent CooperatorAgent ''b''],
      payoff_matrix = standard_payoffs, rounds = 1\<rparr>"

definition shared_name_final :: PrisonersDilemma where
  "shared_name_final =
     \<lparr>agents =
        [(new_agent CooperatorAgent ''a'')
           \<lparr>history := [(''a'', [Cooperate]), (''b'', [Cooperate])],
            oponent_history := [(''a'', [Cooperate]), (''b'', [Cooperate])], score := 6\<rparr>,
         (new_agent CooperatorAgent ''a'')
           \<lparr>history := [(''a'', [Cooperate]), (''b'', [Cooperate])],
            oponent_history := [(''a'', [Cooperate]), (''b'', [Cooperate])], score := 6\<rparr>,
         (new_agent CooperatorAgent ''b'')
           \<lparr>history := [(''a'', [Cooperate, Cooperate])],
            oponent_history := [(''a'', [Cooperate, Cooperate])], score := 6\<rparr>],
      payoff_matrix = standard_payoffs, rounds = 1\<rparr>"

section \<open>Lemmas\<close>

subsection \<open>The agent invariant and the choices it makes safe\<close>

lemma hist_of_update: "hist_of (AList.update k v d) k' = (if k' = k then v else hist_of d k')"
  by (simp add: hist_of_def update_conv')

lemma update_history_ok:
  assumes "agent_inv a"
  shows "update_history a k x y = (None, appended a k x y)"
proof -
  from assms have rel: "rel_option (\<lambda>h oh. length h = length oh \<and> h \<noteq> []) (map_of (history a) k) (map_of (oponent_history a) k)"
    by (simp add: agent_inv_def)
  show ?thesis
  proof (cases "map_of (history a) k")
    case None
    with rel have "map_of (oponent_history a) k = None" by (cases "map_of (oponent_history a) k") auto
    with None show ?thesis
      by (simp add: update_history_def appended_def dict_get_def hist_of_def update_conv' Let_def)
  next
    case (Some h)
    with rel obtain oh where "map_of (oponent_history a) k = Some oh" by (cases "map_of (oponent_history a) k") auto
    with Some show ?thesis
      by (simp add: update_history_def appended_def dict_get_def hist_of_def update_conv' Let_def)
  qed
qed

lemma agent_inv_rel:
  "agent_inv a \<Longrightarrow> rel_option (\<lambda>h oh. length h = length oh \<and> h \<noteq> []) (map_of (history a) k) (map_of (oponent_history a) k)"
  by (simp add: agent_inv_def)

lemma agent_inv_length:
  assumes "agent_inv a"
  shows "length (hist_of (oponent_history a) k) = length (hist_of (history a) k)"
  using agent_inv_rel[OF assms, of k]
  by (cases "map_of (history a) k"; cases "map_of (oponent_history a) k") (auto simp: hist_of_def)

lemma agent_inv_appended:
  assumes "agent_inv a"
  shows "agent_inv (appended a k x y)"
proof -
  have "rel_option (\<lambda>h oh. length h = length oh \<and> h \<noteq> [])
          (map_of (history (appended a k x y)) k') (map_of (oponent_history (appended a k x y)) k')" for k'
    using agent_inv_rel[OF assms, of k'] agent_inv_length[OF assms, of k]
    by (simp add: appended_def update_conv')
  moreover have "distinct (map fst (history (appended a k x y)))" "distinct (map fst (oponent_history (appended a k x y)))"
    using assms by (simp_all add: appended_def agent_inv_def distinct_update)
  ultimately show ?thesis by (simp add: agent_inv_def)
qed

lemma agent_inv_update_score: "agent_inv (update_score a p) = agent_inv a"
  by (simp add: agent_inv_def update_score_def)

lemma agent_inv_new: "agent_inv (new_agent c n)"
  by (simp add: agent_inv_def new_agent_def Agent_init_def)

lemma agent_reachable_inv: "agent_reachable a \<Longrightarrow> agent_inv a"
proof (induction rule: agent_reachable.induct)
  case (constructed c n) show ?case by (rule agent_inv_new)
next
  case (history_updated a k x y e a')
  then show ?case using update_history_ok[of a k x y] agent_inv_appended[of a k x y] by simp
next
  case (score_updated a p) then show ?case by (simp add: agent_inv_update_score)
qed

lemma agent_reachable_appended:
  assumes "agent_reachable a"
  shows "agent_reachable (appended a k x y)"
  using agent_reachable.history_updated[OF assms update_history_ok[OF agent_reachable_inv[OF assms]]] .

lemma agent_inv_keys:
  assumes "agent_inv a"
  shows "(map_of (history a) k = None) = (map_of (oponent_history a) k = None)"
  using agent_inv_rel[OF assms, of k]
  by (cases "map_of (history a) k"; cases "map_of (oponent_history a) k") auto

lemma agent_inv_key_sets:
  assumes "agent_inv a"
  shows "set (map fst (history a)) = set (map fst (oponent_history a))"
proof -
  have "k \<in> fst ` set (history a) \<longleftrightarrow> k \<in> fst ` set (oponent_history a)" for k
    using agent_inv_keys[OF assms, of k] by (simp add: map_of_eq_None_iff)
  then show ?thesis by auto
qed

lemma agent_inv_nonempty:
  assumes "agent_inv a"
  shows "(k, h) \<in> set (history a) \<Longrightarrow> h \<noteq> []"
    and "(k, oh) \<in> set (oponent_history a) \<Longrightarrow> oh \<noteq> []"
proof -
  have d: "distinct (map fst (history a))" "distinct (map fst (oponent_history a))"
    using assms by (simp_all add: agent_inv_def)
  { assume "(k, h) \<in> set (history a)"
    then have "map_of (history a) k = Some h" using d by simp
    then show "h \<noteq> []" using agent_inv_rel[OF assms, of k]
      by (cases "map_of (oponent_history a) k") auto }
  { assume "(k, oh) \<in> set (oponent_history a)"
    then have "map_of (oponent_history a) k = Some oh" using d by simp
    then show "oh \<noteq> []" using agent_inv_rel[OF assms, of k]
      by (cases "map_of (history a) k") auto }
qed

lemma from_end_last: "xs \<noteq> [] \<Longrightarrow> from_end xs (Suc 0) = Inr (last xs)"
  by (cases xs rule: rev_cases) (simp_all add: from_end_def)

lemma TitForTat_choose_ok:
  assumes "agent_inv a"
  shows "TitForTat_choose a k =
           Inr (case map_of (oponent_history a) k of None \<Rightarrow> Cooperate | Some oh \<Rightarrow> last oh)"
proof (cases "map_of (history a) k")
  case None
  then show ?thesis using agent_inv_keys[OF assms, of k] by (simp add: TitForTat_choose_def)
next
  case (Some h)
  then obtain oh where oh: "map_of (oponent_history a) k = Some oh" "length h = length oh" "h \<noteq> []"
    using agent_inv_rel[OF assms, of k] by (cases "map_of (oponent_history a) k") auto
  then have "oh \<noteq> []" by auto
  then show ?thesis using Some oh(1) by (simp add: TitForTat_choose_def dict_get_def from_end_last)
qed

lemma TitForTwoTats_choose_ok:
  assumes "agent_inv a"
  shows "TitForTwoTats_choose a k =
           Inr (let oh = hist_of (oponent_history a) k
                in if 2 \<le> length oh \<and> oh ! (length oh - 1) = Defect \<and> oh ! (length oh - 2) = Defect
                   then Defect else Cooperate)"
  using agent_inv_rel[OF assms, of k]
  by (cases "map_of (history a) k"; cases "map_of (oponent_history a) k")
     (auto simp: TitForTwoTats_choose_def dict_get_def from_end_def hist_of_def Let_def)

lemma Grudger_choose_ok:
  assumes "agent_inv a"
  shows "Grudger_choose a k =
           Inr (if Defect \<in> set (hist_of (oponent_history a) k) then Defect else Cooperate)"
  using agent_inv_rel[OF assms, of k]
  by (cases "map_of (history a) k"; cases "map_of (oponent_history a) k")
     (auto simp: Grudger_choose_def dict_get_def hist_of_def)

lemma choose_action_ok:
  assumes "agent_inv a"
  shows "\<exists>x r'. choose_action a k r = (Inr x, r')"
  by (cases "cls a")
     (simp_all add: choose_action_def TitForTat_choose_ok[OF assms] TitForTwoTats_choose_ok[OF assms]
        Grudger_choose_ok[OF assms] random_choice_def)

lemma choose_action_deterministic:
  assumes "agent_inv a" "cls a \<noteq> RandomAgent"
  shows "\<exists>x. \<forall>r. choose_action a k r = (Inr x, r)"
  using assms(2)
  by (cases "cls a")
     (simp_all add: choose_action_def TitForTat_choose_ok[OF assms(1)] TitForTwoTats_choose_ok[OF assms(1)]
        Grudger_choose_ok[OF assms(1)])

text \<open>
  C10. In every agent state reachable from a constructor through \<^verbatim>\<open>update_history\<close>
  (and \<^verbatim>\<open>update_score\<close>) calls, \<open>history\<close> and \<open>oponent_history\<close> have the same key
  set and every stored sequence is non-empty; so for a \<^verbatim>\<open>TitForTatAgent\<close> the read of
  \<^verbatim>\<open>self.oponent_history[opponent_name][-1]\<close> never raises: \<^verbatim>\<open>choose_action\<close> returns
  the last recorded opponent action, or \<^verbatim>\<open>'cooperate'\<close> when the opponent is not a key.
\<close>
theorem tit_for_tat_lookup_in_bounds:
  assumes "agent_reachable a"
  shows "set (map fst (history a)) = set (map fst (oponent_history a)) \<and>
         (\<forall>(k, h) \<in> set (history a). h \<noteq> []) \<and>
         (\<forall>(k, oh) \<in> set (oponent_history a). oh \<noteq> []) \<and>
         (cls a = TitForTatAgent \<longrightarrow>
            choose_action a opponent_name r =
              (Inr (case map_of (oponent_history a) opponent_name of
                      None \<Rightarrow> Cooperate | Some oh \<Rightarrow> last oh), r))"
proof -
  have inv: "agent_inv a" using assms by (rule agent_reachable_inv)
  have "\<forall>(k, h) \<in> set (history a). h \<noteq> []"
    using agent_inv_nonempty(1)[OF inv] by blast
  moreover have "\<forall>(k, oh) \<in> set (oponent_history a). oh \<noteq> []"
    using agent_inv_nonempty(2)[OF inv] by blast
  ultimately show ?thesis
    using agent_inv_key_sets[OF inv] TitForTat_choose_ok[OF inv]
    by (simp add: choose_action_def)
qed

theorem tit_for_tat_lookup_in_bounds_witness:
  "agent_reachable (appended (new_agent TitForTatAgent ''tft'') ''d'' Cooperate Defect) \<and>
   oponent_history (appended (new_agent TitForTatAgent ''tft'') ''d'' Cooperate Defect) = [(''d'', [Defect])] \<and>
   choose_action (appended (new_agent TitForTatAgent ''tft'') ''d'' Cooperate Defect) ''d'' no_coins
     = (Inr Defect, no_coins)"
proof -
  have r: "agent_reachable (appended (new_agent TitForTatAgent ''tft'') ''d'' Cooperate Defect)"
    by (rule agent_reachable_appended) (rule agent_reachable.constructed)
  show ?thesis
    using r tit_for_tat_lookup_in_bounds[OF r, of "''d''" no_coins]
    by (simp add: appended_def new_agent_def Agent_init_def hist_of_def)
qed

text \<open>
  C9. On a reachable agent state, \<^verbatim>\<open>TitForTwoTatsAgent.choose_action\<close> never raises
  and returns \<^verbatim>\<open>'defect'\<close> exactly when at least two opponent actions are recorded
  against this agent under that opponent's name and the last two are both \<^verbatim>\<open>'defect'\<close>;
  in every other case it returns \<^verbatim>\<open>'cooperate'\<close>.
\<close>
theorem tit_for_two_tats_rule:
  assumes "agent_reachable a" and "cls a = TitForTwoTatsAgent"
  shows "choose_action a opponent_name r =
           (Inr (let oh = hist_of (oponent_history a) opponent_name
                 in if 2 \<le> length oh \<and> oh ! (length oh - 1) = Defect \<and> oh ! (length oh - 2) = Defect
                    then Defect else Cooperate), r)"
  using TitForTwoTats_choose_ok[OF agent_reachable_inv[OF assms(1)]] assms(2)
  by (simp add: choose_action_def)

lemma tf2t_after_reachable: "agent_reachable (tf2t_after y1 y2)"
  unfolding tf2t_after_def
  by (intro agent_reachable_appended agent_reachable.constructed)

lemma tf2t_after_history:
  "oponent_history (tf2t_after y1 y2) = [(''opp'', [y1, y2])]" "cls (tf2t_after y1 y2) = TitForTwoTatsAgent"
  by (simp_all add: tf2t_after_def appended_def new_agent_def Agent_init_def hist_of_def)

theorem tit_for_two_tats_rule_witness:
  "agent_reachable (tf2t_after Defect Defect) \<and> cls (tf2t_after Defect Defect) = TitForTwoTatsAgent \<and>
   oponent_history (tf2t_after Defect Defect) = [(''opp'', [Defect, Defect])] \<and>
   choose_action (tf2t_after Defect Defect) ''opp'' no_coins = (Inr Defect, no_coins) \<and>
   oponent_history (tf2t_after Cooperate Defect) = [(''opp'', [Cooperate, Defect])] \<and>
   choose_action (tf2t_after Cooperate Defect) ''opp'' no_coins = (Inr Cooperate, no_coins) \<and>
   oponent_history (tf2t_after Defect Cooperate) = [(''opp'', [Defect, Cooperate])] \<and>
   choose_action (tf2t_after Defect Cooperate) ''opp'' no_coins = (Inr Cooperate, no_coins) \<and>
   choose_action (tf2t_after Defect Defect) ''other'' no_coins = (Inr Cooperate, no_coins)"
  using tf2t_after_reachable[of Defect Defect]
    tit_for_two_tats_rule[OF tf2t_after_reachable tf2t_after_history(2), of Defect Defect "''opp''" no_coins]
    tit_for_two_tats_rule[OF tf2t_after_reachable tf2t_after_history(2), of Cooperate Defect "''opp''" no_coins]
    tit_for_two_tats_rule[OF tf2t_after_reachable tf2t_after_history(2), of Defect Cooperate "''opp''" no_coins]
    tit_for_two_tats_rule[OF tf2t_after_reachable tf2t_after_history(2), of Defect Defect "''other''" no_coins]
  by (simp add: tf2t_after_history hist_of_def)

subsection \<open>One round in closed form\<close>

lemma name_appended: "name (appended a k x y) = name a"
  by (simp add: appended_def)

lemma get_payoffs_agents: "get_payoffs (g\<lparr>agents := as\<rparr>) x y = get_payoffs g x y"
  by (simp add: get_payoffs_def)

lemma record_round_closed:
  assumes "i < length (agents g)" "j < length (agents g)" "i \<noteq> j"
    and "agent_inv (agents g ! i)" "agent_inv (agents g ! j)"
  shows "record_round i j g x y =
           (case get_payoffs g x y of
              Inl e \<Rightarrow> (Some e, recorded i j g x y)
            | Inr (p1, p2) \<Rightarrow> (None, scored i j (recorded i j g x y) p1 p2))"
proof -
  have ji: "j \<noteq> i" using assms(3) by simp
  show ?thesis
    using assms(1,2,3) ji
    by (simp add: record_round_def update_history_ok[OF assms(4)] update_history_ok[OF assms(5)]
        set_agent_def Let_def name_appended get_payoffs_agents recorded_def scored_def
        list_update_swap[of i j] split: sum.splits prod.splits)
qed

lemma play_round_closed:
  assumes "i < length (agents g)" "j < length (agents g)" "i \<noteq> j"
    and "agent_inv (agents g ! i)" "agent_inv (agents g ! j)"
  shows "\<exists>x y r1 r2.
           choose_action (agents g ! i) (name (agents g ! j)) r = (Inr x, r1) \<and>
           choose_action (agents g ! j) (name (agents g ! i)) r1 = (Inr y, r2) \<and>
           play_round i j g r =
             (case get_payoffs g x y of
                Inl e \<Rightarrow> (Some e, recorded i j g x y, r2)
              | Inr (p1, p2) \<Rightarrow> (None, scored i j (recorded i j g x y) p1 p2, r2))"
proof -
  obtain x r1 where c1: "choose_action (agents g ! i) (name (agents g ! j)) r = (Inr x, r1)"
    using choose_action_ok[OF assms(4)] by blast
  obtain y r2 where c2: "choose_action (agents g ! j) (name (agents g ! i)) r1 = (Inr y, r2)"
    using choose_action_ok[OF assms(5)] by blast
  have "play_round i j g r =
             (case get_payoffs g x y of
                Inl e \<Rightarrow> (Some e, recorded i j g x y, r2)
              | Inr (p1, p2) \<Rightarrow> (None, scored i j (recorded i j g x y) p1 p2, r2))"
    by (simp add: play_round_def c1 c2 record_round_closed[OF assms] split: sum.splits prod.splits)
  with c1 c2 show ?thesis by blast
qed

lemma agents_inv_nth: "agents_inv g \<Longrightarrow> i < length (agents g) \<Longrightarrow> agent_inv (agents g ! i)"
  by (simp add: agents_inv_def list_all_length)

lemma map_update_same: "(map f xs)[i := f (xs ! i)] = map f xs"
  by (metis list_update_id map_update)

lemma nth_update2:
  "m < length xs \<Longrightarrow> xs[i := a, j := b] ! m = (if m = j then b else if m = i then a else xs ! m)"
  by (cases "m = j"; cases "m = i"; simp)

lemma recorded_simps:
  "length (agents (recorded i j g x y)) = length (agents g)"
  "map name (agents (recorded i j g x y)) = map name (agents g)"
  "payoff_matrix (recorded i j g x y) = payoff_matrix g"
  "rounds (recorded i j g x y) = rounds g"
  by (simp_all add: recorded_def map_update name_appended map_update_same)

lemma name_update_score: "name (update_score a p) = name a"
  by (simp add: update_score_def)

lemma scored_simps:
  "length (agents (scored i j g p1 p2)) = length (agents g)"
  "map name (agents (scored i j g p1 p2)) = map name (agents g)"
  "payoff_matrix (scored i j g p1 p2) = payoff_matrix g"
  "rounds (scored i j g p1 p2) = rounds g"
  by (simp_all add: scored_def map_update name_update_score map_update_same)

lemma nth_recorded:
  "m < length (agents g) \<Longrightarrow>
   agents (recorded i j g x y) ! m =
     (if m = j then appended (agents g ! j) (name (agents g ! i)) y x
      else if m = i then appended (agents g ! i) (name (agents g ! j)) x y
      else agents g ! m)"
  by (simp add: recorded_def nth_update2)

lemma nth_scored:
  "m < length (agents g) \<Longrightarrow>
   agents (scored i j g p1 p2) ! m =
     (if m = j then update_score (agents g ! j) p2
      else if m = i then update_score (agents g ! i) p1
      else agents g ! m)"
  by (simp add: scored_def nth_update2)

lemma agents_inv_recorded:
  assumes "agents_inv g"
  shows "agents_inv (recorded i j g x y)"
  unfolding agents_inv_def list_all_length
proof (intro allI impI)
  fix m assume "m < length (agents (recorded i j g x y))"
  then have m: "m < length (agents g)" by (simp add: recorded_simps)
  show "agent_inv (agents (recorded i j g x y) ! m)"
    using m agents_inv_nth[OF assms]
    by (simp add: nth_recorded agent_inv_appended)
qed

lemma agents_inv_scored:
  assumes "agents_inv g"
  shows "agents_inv (scored i j g p1 p2)"
  unfolding agents_inv_def list_all_length
proof (intro allI impI)
  fix m assume "m < length (agents (scored i j g p1 p2))"
  then have m: "m < length (agents g)" by (simp add: scored_simps)
  show "agent_inv (agents (scored i j g p1 p2) ! m)"
    using m agents_inv_nth[OF assms]
    by (simp add: nth_scored agent_inv_update_score)
qed

lemma name_nth:
  assumes "map name as' = map name as" "m < length as"
  shows "name (as' ! m) = name (as ! m)"
proof -
  have "length as' = length as" using assms(1) by (metis length_map)
  then have "name (as' ! m) = map name as' ! m" using assms(2) by simp
  also have "\<dots> = name (as ! m)" using assms by simp
  finally show ?thesis .
qed

lemma name_inj:
  assumes "distinct (map name as)" "k < length as" "l < length as"
  shows "(name (as ! k) = name (as ! l)) = (k = l)"
  using assms nth_eq_iff_index_eq[of "map name as" k l] by simp

lemma scored_histories:
  assumes "m < length (agents g)"
  shows "history (agents (scored i j g p1 p2) ! m) = history (agents g ! m)"
    and "oponent_history (agents (scored i j g p1 p2) ! m) = oponent_history (agents g ! m)"
    and "name (agents (scored i j g p1 p2) ! m) = name (agents g ! m)"
    and "cls (agents (scored i j g p1 p2) ! m) = cls (agents g ! m)"
  using assms by (simp_all add: nth_scored update_score_def)

lemma history_consistent_scored:
  "history_consistent (scored i j g p1 p2) = history_consistent g"
  by (simp add: history_consistent_def scored_simps scored_histories)

lemma history_consistent_recorded:
  assumes hc: "history_consistent g" and inv: "agents_inv g"
    and d: "distinct (map name (agents g))"
    and ij: "i < length (agents g)" "j < length (agents g)" "i \<noteq> j"
  shows "history_consistent (recorded i j g x y)"
proof -
  let ?as = "agents g" and ?g' = "recorded i j g x y"
  let ?A = "?as ! i" and ?B = "?as ! j"
  have inv': "agents_inv ?g'" using agents_inv_recorded[OF inv] .
  have AB: "map_of (history ?A) (name ?B) = map_of (oponent_history ?B) (name ?A)"
     and BA: "map_of (history ?B) (name ?A) = map_of (oponent_history ?A) (name ?B)"
    using hc ij by (auto simp: history_consistent_def)
  { fix k l assume kl: "k < length ?as" "l < length ?as" "k \<noteq> l"
    have old: "map_of (history (?as ! k)) (name (?as ! l)) = map_of (oponent_history (?as ! l)) (name (?as ! k))"
      using hc kl by (auto simp: history_consistent_def)
    have nl: "name (agents ?g' ! l) = name (?as ! l)" and nk: "name (agents ?g' ! k) = name (?as ! k)"
      using name_nth[OF recorded_simps(2)] kl by simp_all
    have "map_of (history (agents ?g' ! k)) (name (?as ! l)) =
          map_of (oponent_history (agents ?g' ! l)) (name (?as ! k))"
      using kl ij old AB BA name_inj[OF d, of l j] name_inj[OF d, of l i] name_inj[OF d, of k j] name_inj[OF d, of k i]
      by (auto simp: nth_recorded appended_def update_conv' hist_of_def)
    then have "map_of (history (agents ?g' ! k)) (name (agents ?g' ! l)) =
          map_of (oponent_history (agents ?g' ! l)) (name (agents ?g' ! k))"
      by (simp add: nl nk)
    moreover have "length (hist_of (history (agents ?g' ! k)) (name (agents ?g' ! l))) =
          length (hist_of (oponent_history (agents ?g' ! k)) (name (agents ?g' ! l)))"
      using agent_inv_length[OF agents_inv_nth[OF inv'], of k] kl by (simp add: recorded_simps)
    ultimately have "map_of (history (agents ?g' ! k)) (name (agents ?g' ! l)) =
          map_of (oponent_history (agents ?g' ! l)) (name (agents ?g' ! k)) \<and>
          length (hist_of (history (agents ?g' ! k)) (name (agents ?g' ! l))) =
          length (hist_of (oponent_history (agents ?g' ! k)) (name (agents ?g' ! l)))" by simp }
  then show ?thesis by (simp add: history_consistent_def recorded_simps)
qed

subsection \<open>Constructed games and reachable states\<close>

lemma create_factory:
  assumes "create factory t n = Inr a"
  shows "\<exists>c. a = new_agent c n"
  using assms
  by (auto simp: create_def factory_def register_def AgentFactory_init_def split: if_splits option.splits)

lemma create_agents_factory:
  "create_agents factory cs = Inr as \<Longrightarrow>
   list_all2 (\<lambda>c a. \<exists>k. a = new_agent k (cfg_name c)) cs as"
proof (induction cs arbitrary: as)
  case Nil
  then show ?case by simp
next
  case (Cons c cs)
  from Cons.prems obtain a as' where a: "create factory (cfg_type c) (cfg_name c) = Inr a"
    and as': "create_agents factory cs = Inr as'" and eq: "as = a # as'"
    by (auto split: sum.splits)
  show ?case using create_factory[OF a] Cons.IH[OF as'] eq by simp
qed

lemma init_factory:
  assumes "PrisonersDilemma_init cfg factory = Inr g"
  shows "\<exists>cs. cfg_agents cfg = Some cs \<and>
           list_all2 (\<lambda>c a. \<exists>k. a = new_agent k (cfg_name c)) cs (agents g) \<and>
           cfg_payoff_matrix cfg = Some (payoff_matrix g) \<and> cfg_rounds cfg = Some (rounds g)"
  using assms create_agents_factory
  by (auto simp: PrisonersDilemma_init_def split: option.splits sum.splits)

lemma init_fresh:
  assumes "PrisonersDilemma_init cfg factory = Inr g"
  shows "fresh g"
proof -
  obtain cs :: "agent_config list" where l: "list_all2 (\<lambda>c a. \<exists>k. a = new_agent k (cfg_name c)) cs (agents g)"
    using init_factory[OF assms] by auto
  have "history a = [] \<and> oponent_history a = [] \<and> score a = 0" if mem: "a \<in> set (agents g)" for a
  proof -
    obtain m where m: "m < length (agents g)" "agents g ! m = a"
      using mem by (auto simp: in_set_conv_nth)
    have "\<exists>k. agents g ! m = new_agent k (cfg_name (cs ! m))"
      using l m(1) by (simp add: list_all2_conv_all_nth)
    then obtain k where "a = new_agent k (cfg_name (cs ! m))" using m(2) by auto
    then show ?thesis by (simp add: new_agent_def Agent_init_def)
  qed
  then show ?thesis by (simp add: fresh_def list_all_iff)
qed

lemma init_names:
  assumes "PrisonersDilemma_init cfg factory = Inr g" "cfg_agents cfg = Some cs"
  shows "map name (agents g) = map cfg_name cs"
proof -
  have l: "list_all2 (\<lambda>c a. \<exists>k. a = new_agent k (cfg_name c)) cs (agents g)"
    using init_factory[OF assms(1)] assms(2) by auto
  have "list_all2 (\<lambda>c a. name a = cfg_name c) cs (agents g)"
    by (rule list_all2_mono[OF l]) (auto simp: new_agent_def Agent_init_def)
  then show ?thesis by (induction rule: list_all2_induct) simp_all
qed

lemma fresh_agents_inv: "fresh g \<Longrightarrow> agents_inv g"
  by (auto simp: fresh_def agents_inv_def list_all_iff agent_inv_def)

lemma fresh_history_consistent: "fresh g \<Longrightarrow> history_consistent g"
  by (auto simp: fresh_def history_consistent_def list_all_length hist_of_def)

lemma play_round_outcome:
  assumes "i < length (agents g)" "j < length (agents g)" "i \<noteq> j" "agents_inv g"
    and "play_round i j g r = (e, g', r')"
  shows "\<exists>x y. (e \<noteq> None \<and> g' = recorded i j g x y) \<or>
               (\<exists>p1 p2. e = None \<and> get_payoffs g x y = Inr (p1, p2) \<and> g' = scored i j (recorded i j g x y) p1 p2)"
proof -
  obtain x y and r1 r2 :: rng where
    "play_round i j g r =
             (case get_payoffs g x y of
                Inl e \<Rightarrow> (Some e, recorded i j g x y, r2)
              | Inr (p1, p2) \<Rightarrow> (None, scored i j (recorded i j g x y) p1 p2, r2))"
    using play_round_closed[OF assms(1,2,3) agents_inv_nth[OF assms(4) assms(1)] agents_inv_nth[OF assms(4) assms(2)], of r]
    by blast
  with assms(5) have "(e \<noteq> None \<and> g' = recorded i j g x y) \<or>
               (\<exists>p1 p2. e = None \<and> get_payoffs g x y = Inr (p1, p2) \<and> g' = scored i j (recorded i j g x y) p1 p2)"
    by (cases "get_payoffs g x y") (auto split: prod.splits)
  then show ?thesis by blast
qed

lemma play_round_names:
  assumes "i < length (agents g)" "j < length (agents g)" "i \<noteq> j" "agents_inv g"
    and "play_round i j g r = (e, g', r')"
  shows "map name (agents g') = map name (agents g)" "length (agents g') = length (agents g)"
    "payoff_matrix g' = payoff_matrix g" "rounds g' = rounds g"
  using play_round_outcome[OF assms] by (auto simp: recorded_simps scored_simps)

lemma play_round_agents_inv:
  assumes "i < length (agents g)" "j < length (agents g)" "i \<noteq> j" "agents_inv g"
    and "play_round i j g r = (e, g', r')"
  shows "agents_inv g'"
  using play_round_outcome[OF assms] agents_inv_recorded[OF assms(4)] agents_inv_scored
  by auto

lemma play_round_history_consistent:
  assumes "i < length (agents g)" "j < length (agents g)" "i \<noteq> j" "agents_inv g"
    and "play_round i j g r = (e, g', r')"
    and "history_consistent g" "distinct (map name (agents g))"
  shows "history_consistent g'"
  using play_round_outcome[OF assms(1-5)]
    history_consistent_recorded[OF assms(6) assms(4) assms(7) assms(1,2,3)]
  by (auto simp: history_consistent_scored)

lemma record_round_self:
  assumes "i < length (agents g)" and "agent_inv (agents g ! i)"
  shows "record_round i i g x y =
           (case get_payoffs g x y of
              Inl e \<Rightarrow>
                (Some e,
                 g\<lparr>agents := (agents g)[i := appended (appended (agents g ! i) (name (agents g ! i)) x y)
                                               (name (agents g ! i)) y x]\<rparr>)
            | Inr (p1, p2) \<Rightarrow>
                (None,
                 g\<lparr>agents := (agents g)[i := update_score (update_score
                     (appended (appended (agents g ! i) (name (agents g ! i)) x y)
                        (name (agents g ! i)) y x) p1) p2]\<rparr>))"
proof -
  have inv1: "agent_inv (appended (agents g ! i) (name (agents g ! i)) x y)"
    using assms(2) by (rule agent_inv_appended)
  show ?thesis
    using assms(1)
    by (simp add: record_round_def update_history_ok[OF assms(2)] update_history_ok[OF inv1]
        set_agent_def Let_def name_appended get_payoffs_agents split: sum.splits prod.splits)
qed

lemma appended_other_key:
  "k' \<noteq> k \<Longrightarrow> map_of (history (appended a k x y)) k' = map_of (history a) k'"
  "k' \<noteq> k \<Longrightarrow> map_of (oponent_history (appended a k x y)) k' = map_of (oponent_history a) k'"
  by (simp_all add: appended_def update_conv')

lemma update_score_fields:
  "history (update_score a p) = history a" "oponent_history (update_score a p) = oponent_history a"
  by (simp_all add: update_score_def)

lemma play_round_self_outcome:
  assumes i: "i < length (agents g)" and inv: "agents_inv g"
    and p: "play_round i i g r = (e, g', r')"
  shows "\<exists>a'. g' = g\<lparr>agents := (agents g)[i := a']\<rparr> \<and> agent_inv a' \<and>
              name a' = name (agents g ! i) \<and>
              (\<forall>k. k \<noteq> name (agents g ! i) \<longrightarrow>
                 map_of (history a') k = map_of (history (agents g ! i)) k \<and>
                 map_of (oponent_history a') k = map_of (oponent_history (agents g ! i)) k)"
proof -
  let ?A = "agents g ! i"
  let ?a = "appended (appended ?A (name ?A) x y) (name ?A) y x"
  have ainv: "agent_inv ?A" using inv i by (rule agents_inv_nth)
  obtain x and r1 :: rng where c1: "choose_action ?A (name ?A) r = (Inr x, r1)"
    using choose_action_ok[OF ainv] by blast
  obtain y and r2 :: rng where c2: "choose_action ?A (name ?A) r1 = (Inr y, r2)"
    using choose_action_ok[OF ainv] by blast
  let ?a = "appended (appended ?A (name ?A) x y) (name ?A) y x"
  have a_inv: "agent_inv ?a" using ainv by (intro agent_inv_appended)
  have a_name: "name ?a = name ?A" by (simp add: name_appended)
  have a_keys: "\<forall>k. k \<noteq> name ?A \<longrightarrow>
                 map_of (history ?a) k = map_of (history ?A) k \<and>
                 map_of (oponent_history ?a) k = map_of (oponent_history ?A) k"
    by (simp add: appended_other_key)
  have pr: "play_round i i g r = (case record_round i i g x y of (e, g') \<Rightarrow> (e, g', r2))"
    by (simp add: play_round_def c1 c2)
  show ?thesis
  proof (cases "get_payoffs g x y")
    case (Inl err)
    then have "g' = g\<lparr>agents := (agents g)[i := ?a]\<rparr>"
      using p pr by (simp add: record_round_self[OF i ainv])
    then show ?thesis using a_inv a_name a_keys by blast
  next
    case (Inr pp)
    obtain p1 p2 where pp: "pp = (p1, p2)" by (cases pp)
    let ?b = "update_score (update_score ?a p1) p2"
    have "g' = g\<lparr>agents := (agents g)[i := ?b]\<rparr>"
      using p pr Inr pp by (simp add: record_round_self[OF i ainv])
    moreover have "agent_inv ?b" using a_inv by (simp add: agent_inv_update_score)
    moreover have "name ?b = name ?A" using a_name by (simp add: name_update_score)
    moreover have "\<forall>k. k \<noteq> name ?A \<longrightarrow>
                 map_of (history ?b) k = map_of (history ?A) k \<and>
                 map_of (oponent_history ?b) k = map_of (oponent_history ?A) k"
      using a_keys by (simp add: update_score_fields)
    ultimately show ?thesis by blast
  qed
qed

lemma play_round_self_preserves:
  assumes i: "i < length (agents g)" and inv: "agents_inv g"
    and p: "play_round i i g r = (e, g', r')"
  shows "map name (agents g') = map name (agents g)" and "length (agents g') = length (agents g)"
    and "agents_inv g'"
    and "history_consistent g \<Longrightarrow> distinct (map name (agents g)) \<Longrightarrow> history_consistent g'"
proof -
  let ?as = "agents g"
  obtain a' where g': "g' = g\<lparr>agents := ?as[i := a']\<rparr>" and a_inv: "agent_inv a'"
    and a_name: "name a' = name (?as ! i)"
    and a_keys: "\<And>k. k \<noteq> name (?as ! i) \<Longrightarrow>
                 map_of (history a') k = map_of (history (?as ! i)) k \<and>
                 map_of (oponent_history a') k = map_of (oponent_history (?as ! i)) k"
    using play_round_self_outcome[OF i inv p] by blast
  have nth: "agents g' ! m = (if m = i then a' else ?as ! m)" if "m < length ?as" for m
    using that by (simp add: g' nth_list_update)
  show names: "map name (agents g') = map name ?as"
    using a_name by (simp add: g' map_update) (metis list_update_id map_update)
  show len: "length (agents g') = length ?as" by (simp add: g')
  show inv': "agents_inv g'"
    unfolding agents_inv_def list_all_length
  proof (intro allI impI)
    fix m assume "m < length (agents g')"
    then have m: "m < length ?as" using len by simp
    show "agent_inv (agents g' ! m)" using nth[OF m] a_inv agents_inv_nth[OF inv m] by simp
  qed
  assume hc: "history_consistent g" and d: "distinct (map name ?as)"
  { fix k l assume kl: "k < length ?as" "l < length ?as" "k \<noteq> l"
    have old: "map_of (history (?as ! k)) (name (?as ! l)) = map_of (oponent_history (?as ! l)) (name (?as ! k))"
      using hc kl by (auto simp: history_consistent_def)
    have nl: "name (agents g' ! l) = name (?as ! l)" and nk: "name (agents g' ! k) = name (?as ! k)"
      using name_nth[OF names] kl by simp_all
    have "map_of (history (agents g' ! k)) (name (?as ! l)) =
          map_of (oponent_history (agents g' ! l)) (name (?as ! k))"
      using kl i old name_inj[OF d, of l i] name_inj[OF d, of k i]
        a_keys[of "name (?as ! l)"] a_keys[of "name (?as ! k)"]
      by (auto simp: nth)
    then have "map_of (history (agents g' ! k)) (name (agents g' ! l)) =
          map_of (oponent_history (agents g' ! l)) (name (agents g' ! k))"
      by (simp add: nl nk)
    moreover have "length (hist_of (history (agents g' ! k)) (name (agents g' ! l))) =
          length (hist_of (oponent_history (agents g' ! k)) (name (agents g' ! l)))"
      using agent_inv_length[OF agents_inv_nth[OF inv'], of k] kl len by simp
    ultimately have "map_of (history (agents g' ! k)) (name (agents g' ! l)) =
          map_of (oponent_history (agents g' ! l)) (name (agents g' ! k)) \<and>
          length (hist_of (history (agents g' ! k)) (name (agents g' ! l))) =
          length (hist_of (oponent_history (agents g' ! k)) (name (agents g' ! l)))" by simp }
  then show "history_consistent g'" by (simp add: history_consistent_def len)
qed

lemma play_round_preserves:
  assumes "i < length (agents g)" and "j < length (agents g)" and "agents_inv g"
    and "play_round i j g r = (e, g', r')"
  shows "map name (agents g') = map name (agents g)" and "length (agents g') = length (agents g)"
    and "agents_inv g'"
    and "history_consistent g \<Longrightarrow> distinct (map name (agents g)) \<Longrightarrow> history_consistent g'"
proof -
  show "map name (agents g') = map name (agents g)"
    using assms play_round_names(1)[of i g j r e g' r'] play_round_self_preserves(1)[of i g r e g' r']
    by (cases "i = j") simp_all
  show "length (agents g') = length (agents g)"
    using assms play_round_names(2)[of i g j r e g' r'] play_round_self_preserves(2)[of i g r e g' r']
    by (cases "i = j") simp_all
  show "agents_inv g'"
    using assms play_round_agents_inv[of i g j r e g' r'] play_round_self_preserves(3)[of i g r e g' r']
    by (cases "i = j") simp_all
  assume "history_consistent g" "distinct (map name (agents g))"
  then show "history_consistent g'"
    using assms play_round_history_consistent[of i g j r e g' r']
      play_round_self_preserves(4)[of i g r e g' r']
    by (cases "i = j") simp_all
qed

lemma reachable_agents_inv: "reachable g \<Longrightarrow> agents_inv g"
proof (induction rule: reachable.induct)
  case (constructed_game cfg g)
  then show ?case by (simp add: init_fresh fresh_agents_inv)
next
  case (round_played g i j r e g' r')
  then show ?case using play_round_preserves(3) by blast
qed

lemma reachable_history_consistent:
  "reachable g \<Longrightarrow> distinct (map name (agents g)) \<Longrightarrow> history_consistent g"
proof (induction rule: reachable.induct)
  case (constructed_game cfg g)
  then show ?case by (simp add: init_fresh fresh_history_consistent)
next
  case (round_played g i j r e g' r')
  have inv: "agents_inv g" using round_played.hyps(1) by (rule reachable_agents_inv)
  have n: "map name (agents g') = map name (agents g)"
    using play_round_preserves(1)[OF round_played.hyps(2,3) inv round_played.hyps(4)] .
  show ?case
    using play_round_preserves(4)[OF round_played.hyps(2,3) inv round_played.hyps(4)]
      round_played.IH round_played.prems n by simp
qed

lemma valid_calls_Cons: "valid_calls n ((i, j) # cs) = (i < j \<and> j < n \<and> valid_calls n cs)"
  by (simp add: valid_calls_def)

lemma valid_calls_append: "valid_calls n (cs @ ds) = (valid_calls n cs \<and> valid_calls n ds)"
  by (simp add: valid_calls_def)

lemma valid_round_pairs: "valid_calls n (round_pairs n)"
  by (auto simp: valid_calls_def round_pairs_def list_all_iff)

lemma valid_concat_replicate: "valid_calls n cs \<Longrightarrow> valid_calls n (concat (replicate k cs))"
  by (induction k) (simp_all add: valid_calls_append, simp add: valid_calls_def)

lemma valid_run_calls: "valid_calls (length (agents g)) (run_calls g)"
  by (simp add: run_calls_def valid_concat_replicate valid_round_pairs)

lemma play_rounds_reachable:
  "reachable g \<Longrightarrow> valid_calls (length (agents g)) cs \<Longrightarrow> play_rounds cs g r = (tr, e, g', r') \<Longrightarrow>
   reachable g' \<and> length (agents g') = length (agents g) \<and> map name (agents g') = map name (agents g)
     \<and> payoff_matrix g' = payoff_matrix g \<and> rounds g' = rounds g"
proof (induction cs arbitrary: g r tr e g' r')
  case Nil
  then show ?case by simp
next
  case (Cons c cs)
  obtain i j where c: "c = (i, j)" by (cases c)
  obtain e1 g1 r1 where p: "play_round i j g r = (e1, g1, r1)" by (cases "play_round i j g r")
  have ij: "i < length (agents g)" "j < length (agents g)" "i \<noteq> j" and v: "valid_calls (length (agents g)) cs"
    using Cons.prems(2) c by (auto simp: valid_calls_Cons)
  have inv: "agents_inv g" using Cons.prems(1) by (rule reachable_agents_inv)
  have r1: "reachable g1" using reachable.round_played[OF Cons.prems(1) ij(1,2) p] .
  note same = play_round_names[OF ij inv p]
  show ?case
  proof (cases e1)
    case (Some err)
    then have "g' = g1" using Cons.prems(3) c p by simp
    then show ?thesis using r1 same by simp
  next
    case None
    obtain tr2 e2 g2 r2 where rest: "play_rounds cs g1 r1 = (tr2, e2, g2, r2)"
      by (cases "play_rounds cs g1 r1")
    then have "g' = g2" using Cons.prems(3) c p None by simp
    moreover have "valid_calls (length (agents g1)) cs" using v same by simp
    ultimately show ?thesis using Cons.IH[OF r1 _ rest] same by simp
  qed
qed

lemma run_reachable:
  assumes "reachable g" "run g r = (tr, e, g', r')"
  shows "reachable g'" "length (agents g') = length (agents g)" "map name (agents g') = map name (agents g)"
    "payoff_matrix g' = payoff_matrix g" "rounds g' = rounds g"
  using play_rounds_reachable[OF assms(1) valid_run_calls, of r tr e g' r'] assms(2)
  by (simp_all add: run_def)

lemma tft_vs_defector_init:
  "PrisonersDilemma_init tft_vs_defector factory = Inr tft_vs_defector_game"
  by (simp add: PrisonersDilemma_init_def tft_vs_defector_def tft_vs_defector_game_def factory_def
      register_def AgentFactory_init_def create_def)

lemma tft_vs_defector_calls: "run_calls tft_vs_defector_game = [(0, 1), (0, 1), (0, 1)]"
  by (simp add: run_calls_def round_pairs_def tft_vs_defector_game_def numeral_3_eq_3)

lemma tft_vs_defector_run:
  "run tft_vs_defector_game r = ([(0, 1), (0, 1), (0, 1)], None, tft_vs_defector_final, r)"
  unfolding run_def tft_vs_defector_calls
  by (simp add: tft_vs_defector_game_def tft_vs_defector_final_def play_round_def record_round_def
      choose_action_def set_agent_def new_agent_def Agent_init_def update_history_def update_score_def
      dict_get_def from_end_def TitForTat_choose_def get_payoffs_def standard_payoffs_def)

subsection \<open>Consistency of the histories\<close>

lemma shared_name_init: "PrisonersDilemma_init shared_name factory = Inr shared_name_game"
  by (simp add: PrisonersDilemma_init_def shared_name_def shared_name_game_def factory_def
      register_def AgentFactory_init_def create_def)

lemma shared_name_run:
  "run shared_name_game r = ([(0, 1), (0, 2), (1, 2)], None, shared_name_final, r)"
proof -
  have c: "run_calls shared_name_game = [(0, 1), (0, 2), (1, 2)]"
    by (simp add: run_calls_def round_pairs_def shared_name_game_def numeral_3_eq_3 upt_rec)
  show ?thesis unfolding run_def c
    by (simp add: shared_name_game_def shared_name_final_def play_round_def record_round_def
      choose_action_def set_agent_def new_agent_def Agent_init_def update_history_def update_score_def
      dict_get_def get_payoffs_def standard_payoffs_def numeral_2_eq_2)
qed

text \<open>
  C1, as stated, fails when two agents of the configuration share a name, which the
  constructor accepts: with agents named a, a and b, the third agent records its rounds
  against both others under the one key a, so after one round its sequence against the
  first agent has two entries while the first agent's sequence against it has one.
\<close>
theorem histories_differ_for_shared_name:
  "case PrisonersDilemma_init shared_name factory of
     Inl err \<Rightarrow> False
   | Inr g0 \<Rightarrow>
       (case run g0 no_coins of
          (calls, e, g, r') \<Rightarrow>
            e = None \<and> calls = [(0, 1), (0, 2), (1, 2)] \<and>
            map name (agents g) = [''a'', ''a'', ''b''] \<and>
            hist_of (history (agents g ! 0)) (name (agents g ! 2)) = [Cooperate] \<and>
            hist_of (history (agents g ! 2)) (name (agents g ! 0)) = [Cooperate, Cooperate] \<and>
            \<not> history_consistent g)"
proof -
  have "\<not> history_consistent shared_name_final"
  proof
    assume hc: "history_consistent shared_name_final"
    have len: "length (agents shared_name_final) = 3" by (simp add: shared_name_final_def)
    note a = hc[unfolded history_consistent_def len]
    have i: "(0::nat) \<in> {0..<3}" and j: "(2::nat) \<in> {0..<3}" by simp_all
    from bspec[OF bspec[OF a i] j]
    have "map_of (history (agents shared_name_final ! 0)) (name (agents shared_name_final ! 2)) =
          map_of (oponent_history (agents shared_name_final ! 2)) (name (agents shared_name_final ! 0))"
      by simp
    then show False
      by (simp add: shared_name_final_def new_agent_def Agent_init_def)
  qed
  then show ?thesis
    by (simp add: shared_name_init shared_name_run)
       (simp add: shared_name_final_def new_agent_def Agent_init_def hist_of_def)
qed

text \<open>
  C1, amended. In every game state reachable from the constructor through
  \<^verbatim>\<open>play_round\<close> calls, when the agents' names are pairwise different (the data
  model's requirement on identities): for every two different agents \<open>A\<close> and \<open>B\<close>,
  \<open>A.history[B]\<close> and \<open>B.oponent_history[A]\<close> are the same sequence (or both absent),
  and \<open>A.history[B]\<close> and \<open>A.oponent_history[B]\<close> have the same length; hence the four
  sequences of a pair have one length and agree index by index. The property holds
  again after any further \<^verbatim>\<open>play_round\<close> call and after \<^verbatim>\<open>run\<close>, whether they return
  or raise.
\<close>
theorem histories_consistent:
  assumes "reachable g" and "distinct (map name (agents g))"
  shows "history_consistent g \<and>
         (\<forall>i j r. i < length (agents g) \<and> j < length (agents g) \<longrightarrow>
            (case play_round i j g r of (e, g', r') \<Rightarrow> history_consistent g')) \<and>
         (\<forall>r. case run g r of (calls, e, g', r') \<Rightarrow> history_consistent g')"
proof (intro conjI allI impI)
  show "history_consistent g" using assms by (rule reachable_history_consistent)
next
  fix i j r assume ij: "i < length (agents g) \<and> j < length (agents g)"
  obtain e g' r' where p: "play_round i j g r = (e, g', r')" by (cases "play_round i j g r")
  have inv: "agents_inv g" using assms(1) by (rule reachable_agents_inv)
  have "reachable g'" using reachable.round_played[OF assms(1) _ _ p] ij by simp
  moreover have "map name (agents g') = map name (agents g)"
    using play_round_preserves(1)[OF _ _ inv p] ij by simp
  ultimately have "history_consistent g'" using assms(2) by (simp add: reachable_history_consistent)
  then show "case play_round i j g r of (e, g', r') \<Rightarrow> history_consistent g'" by (simp add: p)
next
  fix r
  obtain tr e g' r' where p: "run g r = (tr, e, g', r')" by (cases "run g r")
  have "history_consistent g'"
    using run_reachable(1,3)[OF assms(1) p] assms(2) by (simp add: reachable_history_consistent)
  then show "case run g r of (calls, e, g', r') \<Rightarrow> history_consistent g'" by (simp add: p)
qed

theorem histories_consistent_witness:
  "reachable tft_vs_defector_game \<and> distinct (map name (agents tft_vs_defector_game)) \<and>
   run tft_vs_defector_game no_coins = ([(0, 1), (0, 1), (0, 1)], None, tft_vs_defector_final, no_coins) \<and>
   history_consistent tft_vs_defector_final \<and>
   map_of (history (agents tft_vs_defector_final ! 0)) ''d'' = Some [Cooperate, Defect, Defect] \<and>
   map_of (oponent_history (agents tft_vs_defector_final ! 1)) ''tft'' = Some [Cooperate, Defect, Defect]"
proof -
  have r: "reachable tft_vs_defector_game"
    using tft_vs_defector_init by (rule reachable.constructed_game)
  have d: "distinct (map name (agents tft_vs_defector_game))"
    by (simp add: tft_vs_defector_game_def new_agent_def Agent_init_def)
  have "case run tft_vs_defector_game no_coins of (calls, e, g', r') \<Rightarrow> history_consistent g'"
    using spec[OF conjunct2[OF conjunct2[OF histories_consistent[OF r d]]], of no_coins] .
  then show ?thesis using r d
    by (simp add: tft_vs_defector_run) (simp add: tft_vs_defector_final_def)
qed

subsection \<open>The calls of a run\<close>

lemma play_rounds_trace:
  "play_rounds cs g r = (tr, None, g', r') \<Longrightarrow> tr = cs"
proof (induction cs arbitrary: g r tr)
  case Nil
  then show ?case by simp
next
  case (Cons c cs)
  obtain i j where c: "c = (i, j)" by (cases c)
  obtain e1 g1 r1 where p: "play_round i j g r = (e1, g1, r1)" by (cases "play_round i j g r")
  obtain tr2 e2 g2 r2 where rest: "play_rounds cs g1 r1 = (tr2, e2, g2, r2)"
    by (cases "play_rounds cs g1 r1")
  from Cons.prems c p rest have "e1 = None" "e2 = None" "g2 = g'" "r2 = r'" "tr = (i, j) # tr2"
    by (cases e1; simp)+
  then show ?case using Cons.IH[of g1 r1 tr2] rest c by simp
qed

lemma play_rounds_prefix:
  "play_rounds cs g r = (tr, e, g', r') \<Longrightarrow> \<exists>rest. cs = tr @ rest"
proof (induction cs arbitrary: g r tr)
  case Nil
  then show ?case by simp
next
  case (Cons c cs)
  obtain i j where c: "c = (i, j)" by (cases c)
  obtain e1 g1 r1 where p: "play_round i j g r = (e1, g1, r1)" by (cases "play_round i j g r")
  obtain tr2 e2 g2 r2 where rest: "play_rounds cs g1 r1 = (tr2, e2, g2, r2)"
    by (cases "play_rounds cs g1 r1")
  show ?case
  proof (cases e1)
    case None
    then have "tr = (i, j) # tr2" "e2 = e" "g2 = g'" "r2 = r'" using Cons.prems c p rest by simp_all
    then show ?thesis using Cons.IH[of g1 r1 tr2] rest c by auto
  next
    case (Some a)
    then have "tr = [(i, j)]" using Cons.prems c p by simp
    then show ?thesis using c by simp
  qed
qed

lemma sum_round_pairs:
  "m \<le> n \<Longrightarrow> 2 * (\<Sum>i\<leftarrow>[0..<m]. n - Suc i) + m * (m + 1) = 2 * m * n"
  by (induction m) (auto simp: algebra_simps)

lemma length_round_pairs_twice: "2 * length (round_pairs n) = n * (n - 1)"
proof -
  have "length (round_pairs n) = (\<Sum>i\<leftarrow>[0..<n]. n - Suc i)"
    by (simp add: round_pairs_def length_concat comp_def)
  then have "2 * length (round_pairs n) + n * (n + 1) = 2 * n * n"
    using sum_round_pairs[of n n] by simp
  then show ?thesis by (cases n) (simp_all add: algebra_simps)
qed

lemma length_concat_replicate: "length (concat (replicate k xs)) = k * length xs"
  by (induction k) simp_all

lemma length_run_calls:
  "length (run_calls g) = nat (rounds g) * length (agents g) * (length (agents g) - 1) div 2"
proof -
  let ?n = "length (agents g)" and ?k = "nat (rounds g)"
  have aux: "x div 2 = y" if "x = 2 * y" for x y :: nat using that by simp
  have "?k * ?n * (?n - 1) = 2 * (?k * length (round_pairs ?n))"
    using length_round_pairs_twice[of ?n] by (simp add: mult.assoc)
  from aux[OF this] show ?thesis by (simp add: run_calls_def length_concat_replicate)
qed

lemma filter_upt_greater: "filter (\<lambda>j. i < j) [0..<n] = [Suc i..<n]"
  by (induction n) auto

lemma round_pairs_product:
  "round_pairs n = filter (\<lambda>(i, j). i < j) (List.product [0..<n] [0..<n])"
proof -
  have "filter (\<lambda>(i, j). i < j) (map (Pair i) [0..<n]) = map (Pair i) [Suc i..<n]" for i
    by (simp add: filter_map comp_def filter_upt_greater)
  then show ?thesis
    by (simp add: round_pairs_def product_concat_map filter_concat comp_def)
qed

lemma distinct_round_pairs: "distinct (round_pairs n)"
  by (simp add: round_pairs_product distinct_product)

lemma set_round_pairs: "set (round_pairs n) = {(i, j). i < j \<and> j < n}"
  by (auto simp: round_pairs_product)

text \<open>
  C6. Two agents, TitForTat and Defector, the standard payoff matrix, three rounds:
  the run raises nothing, makes three \<^verbatim>\<open>play_round\<close> calls, TitForTat plays cooperate,
  defect, defect, the Defector plays defect three times, and the scores are 2 and 7;
  whatever the random generator holds.
\<close>
theorem tft_vs_defector_scenario:
  "case PrisonersDilemma_init tft_vs_defector factory of
     Inl err \<Rightarrow> False
   | Inr g \<Rightarrow>
       (case run g r of
          (calls, e, g', r') \<Rightarrow>
            e = None \<and> calls = [(0, 1), (0, 1), (0, 1)] \<and>
            map cls (agents g') = [TitForTatAgent, DefectorAgent] \<and>
            map history (agents g') =
              [[(''d'', [Cooperate, Defect, Defect])], [(''tft'', [Defect, Defect, Defect])]] \<and>
            map oponent_history (agents g') =
              [[(''d'', [Defect, Defect, Defect])], [(''tft'', [Cooperate, Defect, Defect])]] \<and>
            map score (agents g') = [2, 7])"
  by (simp add: tft_vs_defector_init tft_vs_defector_run)
     (simp add: tft_vs_defector_final_def new_agent_def Agent_init_def)

text \<open>
  C4. A run that returns has made exactly \<open>r * n * (n - 1) / 2\<close> calls of
  \<^verbatim>\<open>play_round\<close>, for \<open>n\<close> agents and \<open>r\<close> rounds (no call for \<open>r \<le> 0\<close>): \<open>r\<close> times
  the same list of pairs, which has every pair \<open>(i, j)\<close> of positions with \<open>i < j < n\<close>
  once and nothing else; so no agent plays itself and no pair is played in both orders.
\<close>
theorem run_plays_every_pair_once_per_round:
  assumes "run g r = (calls, None, g', r')"
  shows "length calls = nat (rounds g) * length (agents g) * (length (agents g) - 1) div 2 \<and>
         calls = concat (replicate (nat (rounds g)) (round_pairs (length (agents g)))) \<and>
         distinct (round_pairs (length (agents g))) \<and>
         set (round_pairs (length (agents g))) = {(i, j). i < j \<and> j < length (agents g)}"
proof -
  have "calls = run_calls g" using assms by (simp add: run_def play_rounds_trace)
  then show ?thesis
    using length_run_calls[of g] distinct_round_pairs set_round_pairs
    by (simp add: run_calls_def)
qed

theorem run_plays_every_pair_once_per_round_witness:
  "run tft_vs_defector_game no_coins = ([(0, 1), (0, 1), (0, 1)], None, tft_vs_defector_final, no_coins) \<and>
   rounds tft_vs_defector_game = 3 \<and> length (agents tft_vs_defector_game) = 2 \<and>
   length [(0::nat, 1::nat), (0, 1), (0, 1)] =
     nat (rounds tft_vs_defector_game) * length (agents tft_vs_defector_game)
       * (length (agents tft_vs_defector_game) - 1) div 2"
proof -
  have "length [(0::nat, 1::nat), (0, 1), (0, 1)] =
     nat (rounds tft_vs_defector_game) * length (agents tft_vs_defector_game)
       * (length (agents tft_vs_defector_game) - 1) div 2"
    using run_plays_every_pair_once_per_round[OF tft_vs_defector_run[of no_coins]] by (rule conjunct1)
  moreover have "rounds tft_vs_defector_game = 3" "length (agents tft_vs_defector_game) = 2"
    by (simp_all add: tft_vs_defector_game_def)
  ultimately show ?thesis using tft_vs_defector_run[of no_coins] by (intro conjI)
qed

text \<open>
  C3. In a reachable game state, for two agents neither of which is a \<^verbatim>\<open>RandomAgent\<close>:
  both \<^verbatim>\<open>choose_action\<close> calls return an action computed from the state before the
  round and leave the random generator alone, \<^verbatim>\<open>play_round\<close> records exactly these two
  actions, and exchanging the two calls gives the same result (exception, game and
  generator).
\<close>
theorem choices_are_simultaneous:
  assumes "reachable g" and "i < length (agents g)" and "j < length (agents g)"
    and "cls (agents g ! i) \<noteq> RandomAgent" and "cls (agents g ! j) \<noteq> RandomAgent"
  shows "\<exists>x y.
           choose_action (agents g ! i) (name (agents g ! j)) r = (Inr x, r) \<and>
           choose_action (agents g ! j) (name (agents g ! i)) r = (Inr y, r) \<and>
           play_round i j g r = (case record_round i j g x y of (e, g') \<Rightarrow> (e, g', r)) \<and>
           play_round_swapped i j g r = play_round i j g r"
proof -
  have inv: "agents_inv g" using assms(1) by (rule reachable_agents_inv)
  obtain x where x: "\<And>r. choose_action (agents g ! i) (name (agents g ! j)) r = (Inr x, r)"
    using choose_action_deterministic[OF agents_inv_nth[OF inv assms(2)] assms(4)] by blast
  obtain y where y: "\<And>r. choose_action (agents g ! j) (name (agents g ! i)) r = (Inr y, r)"
    using choose_action_deterministic[OF agents_inv_nth[OF inv assms(3)] assms(5)] by blast
  have "play_round i j g r = (case record_round i j g x y of (e, g') \<Rightarrow> (e, g', r))"
    by (simp add: play_round_def x y)
  moreover have "play_round_swapped i j g r = (case record_round i j g x y of (e, g') \<Rightarrow> (e, g', r))"
    by (simp add: play_round_swapped_def x y)
  ultimately show ?thesis using x y by auto
qed

theorem choices_are_simultaneous_witness:
  "reachable tft_vs_defector_game \<and> (0::nat) < length (agents tft_vs_defector_game) \<and>
   (1::nat) < length (agents tft_vs_defector_game) \<and>
   cls (agents tft_vs_defector_game ! 0) \<noteq> RandomAgent \<and>
   cls (agents tft_vs_defector_game ! 1) \<noteq> RandomAgent \<and>
   play_round_swapped 0 1 tft_vs_defector_game no_coins = play_round 0 1 tft_vs_defector_game no_coins"
proof -
  have r: "reachable tft_vs_defector_game"
    using tft_vs_defector_init by (rule reachable.constructed_game)
  have h: "(0::nat) < length (agents tft_vs_defector_game)" "(1::nat) < length (agents tft_vs_defector_game)"
    "cls (agents tft_vs_defector_game ! 0) \<noteq> RandomAgent" "cls (agents tft_vs_defector_game ! 1) \<noteq> RandomAgent"
    by (simp_all add: tft_vs_defector_game_def new_agent_def Agent_init_def)
  show ?thesis using r h choices_are_simultaneous[OF r h, of no_coins] by blast
qed

subsection \<open>Construction errors\<close>

lemma foldl_register_lookup:
  "(map_of (agent_classes (foldl (\<lambda>f (n, c). register f n c) f0 regs)) k = None) =
   (map_of (agent_classes f0) k = None \<and> k \<notin> fst ` set regs)"
  by (induction regs arbitrary: f0) (auto simp: register_def update_conv' split: if_splits)

lemma register_all_lookup:
  "(map_of (agent_classes (register_all regs)) k = None) = (k \<notin> fst ` set regs)"
  by (simp add: register_all_def foldl_register_lookup AgentFactory_init_def)

lemma factory_register_all: "factory = register_all module_registrations"
  by (simp add: factory_def register_all_def module_registrations_def)

lemma create_agents_unregistered:
  "\<exists>c \<in> set cs. map_of (agent_classes f) (cfg_type c) = None \<Longrightarrow>
   \<exists>c \<in> set cs. map_of (agent_classes f) (cfg_type c) = None \<and>
                 create_agents f cs = Inl (not_registered (cfg_type c))"
proof (induction cs)
  case Nil
  then show ?case by simp
next
  case (Cons c cs)
  show ?case
  proof (cases "map_of (agent_classes f) (cfg_type c)")
    case None
    then show ?thesis by (simp add: create_def)
  next
    case (Some ctor)
    then have "\<exists>c \<in> set cs. map_of (agent_classes f) (cfg_type c) = None" using Cons.prems by auto
    from Cons.IH[OF this] show ?thesis using Some by (auto simp: create_def)
  qed
qed

lemma create_agents_registered:
  "\<forall>c \<in> set cs. map_of (agent_classes f) (cfg_type c) \<noteq> None \<Longrightarrow> \<exists>as. create_agents f cs = Inr as"
  by (induction cs) (auto simp: create_def)

text \<open>
  C7. On a factory that received exactly the registrations \<open>regs\<close>, \<^verbatim>\<open>create\<close> with a
  kind that is not among them raises the \<^verbatim>\<open>ValueError\<close> "Agent class ... not registered."
  and returns no agent; and the constructor of the game, given a configuration whose
  agent list names that kind, raises this error for an unregistered kind of the list, so
  no game object exists and nothing is played.
\<close>
theorem create_unregistered_fails:
  assumes "kind \<notin> fst ` set regs"
  shows "create (register_all regs) kind arg = Inl (not_registered kind) \<and>
         (\<forall>cfg cs. cfg_agents cfg = Some cs \<and> kind \<in> cfg_type ` set cs \<longrightarrow>
            (\<exists>c \<in> set cs. cfg_type c \<notin> fst ` set regs \<and>
               PrisonersDilemma_init cfg (register_all regs) = Inl (not_registered (cfg_type c))))"
proof (intro conjI allI impI)
  have "map_of (agent_classes (register_all regs)) kind = None"
    using assms by (simp add: register_all_lookup)
  then show "create (register_all regs) kind arg = Inl (not_registered kind)"
    by (simp add: create_def)
next
  fix cfg :: config and cs
  assume a: "cfg_agents cfg = Some cs \<and> kind \<in> cfg_type ` set cs"
  then have "\<exists>c \<in> set cs. map_of (agent_classes (register_all regs)) (cfg_type c) = None"
    using assms by (auto simp: register_all_lookup)
  from create_agents_unregistered[OF this] a
  show "\<exists>c \<in> set cs. cfg_type c \<notin> fst ` set regs \<and>
          PrisonersDilemma_init cfg (register_all regs) = Inl (not_registered (cfg_type c))"
    by (auto simp: PrisonersDilemma_init_def register_all_lookup)
qed

theorem create_unregistered_fails_witness:
  "''Pavlov'' \<notin> fst ` set module_registrations \<and>
   create factory ''Pavlov'' ''p'' =
     Inl (ValueError (''Agent class '' @ [CHR 0x27] @ ''Pavlov'' @ [CHR 0x27] @ '' not registered.'')) \<and>
   PrisonersDilemma_init pavlov_config factory = Inl (not_registered ''Pavlov'')"
proof -
  have n: "''Pavlov'' \<notin> fst ` set module_registrations" by (simp add: module_registrations_def)
  have "create factory ''Pavlov'' ''p'' = Inl (not_registered ''Pavlov'')"
    using create_unregistered_fails[OF n, of "''p''"] by (simp add: factory_register_all)
  moreover have "PrisonersDilemma_init pavlov_config factory = Inl (not_registered ''Pavlov'')"
    by (simp add: PrisonersDilemma_init_def pavlov_config_def factory_def register_def
        AgentFactory_init_def create_def)
  ultimately show ?thesis using n by (simp add: not_registered_def)
qed

lemma init_without_dd:
  "PrisonersDilemma_init tft_vs_defector_without_dd factory = Inr game_without_dd"
  by (simp add: PrisonersDilemma_init_def tft_vs_defector_without_dd_def game_without_dd_def factory_def
      register_def AgentFactory_init_def create_def)

lemma run_without_dd:
  "run game_without_dd r =
     ([(0, 1), (0, 1)], Some (KeyError ''defect''),
      \<lparr>agents =
        [(new_agent TitForTatAgent ''tft'')
           \<lparr>history := [(''d'', [Cooperate, Defect])],
            oponent_history := [(''d'', [Defect, Defect])], score := 0\<rparr>,
         (new_agent DefectorAgent ''d'')
           \<lparr>history := [(''tft'', [Defect, Defect])],
            oponent_history := [(''tft'', [Cooperate, Defect])], score := 5\<rparr>],
      payoff_matrix = payoffs_without_dd, rounds = 3\<rparr>, r)"
proof -
  have c: "run_calls game_without_dd = [(0, 1), (0, 1), (0, 1)]"
    by (simp add: run_calls_def round_pairs_def game_without_dd_def numeral_3_eq_3)
  show ?thesis unfolding run_def c
    by (simp add: game_without_dd_def play_round_def record_round_def
      choose_action_def set_agent_def new_agent_def Agent_init_def update_history_def update_score_def
      dict_get_def from_end_def TitForTat_choose_def get_payoffs_def payoffs_without_dd_def)
qed

text \<open>
  C5, as stated, fails: with the entry for (defect, defect) missing from the payoff
  matrix, the constructor returns a game. The run then raises \<^verbatim>\<open>KeyError('defect')\<close> in
  its second \<^verbatim>\<open>play_round\<close> call, after the first round was played and scored and after
  the second round's actions were appended to both histories.
\<close>
theorem incomplete_payoffs_not_rejected:
  "case PrisonersDilemma_init tft_vs_defector_without_dd factory of
     Inl err \<Rightarrow> False
   | Inr g \<Rightarrow>
       payoff_entry (payoff_matrix g) Defect Defect = None \<and>
       (case run g no_coins of
          (calls, e, g', r') \<Rightarrow>
            calls = [(0, 1), (0, 1)] \<and> e = Some (KeyError ''defect'') \<and>
            map history (agents g') = [[(''d'', [Cooperate, Defect])], [(''tft'', [Defect, Defect])]] \<and>
            map score (agents g') = [0, 5])"
  by (simp add: init_without_dd run_without_dd)
     (simp add: game_without_dd_def payoff_entry_def payoffs_without_dd_def new_agent_def Agent_init_def)

lemma get_payoffs_entry:
  "get_payoffs g x y =
     (case payoff_entry (payoff_matrix g) x y of
        None \<Rightarrow> Inl (KeyError (if payoff_matrix g x = None then action_str x else action_str y))
      | Some p \<Rightarrow> Inr p)"
  by (simp add: get_payoffs_def payoff_entry_def split: option.splits)

lemma play_rounds_raise:
  "play_rounds cs g r = (tr, Some err, g', r') \<Longrightarrow>
   \<exists>pre i j rest gm rm.
      cs = pre @ (i, j) # rest \<and> tr = pre @ [(i, j)] \<and>
      play_rounds pre g r = (pre, None, gm, rm) \<and> play_round i j gm rm = (Some err, g', r')"
proof (induction cs arbitrary: g r tr)
  case Nil
  then show ?case by simp
next
  case (Cons c cs)
  obtain i j where c: "c = (i, j)" by (cases c)
  obtain e1 g1 r1 where p: "play_round i j g r = (e1, g1, r1)" by (cases "play_round i j g r")
  show ?case
  proof (cases e1)
    case (Some a)
    then have "tr = [(i, j)]" "a = err" "g1 = g'" "r1 = r'" using Cons.prems c p by simp_all
    then have "c # cs = [] @ (i, j) # cs \<and> tr = [] @ [(i, j)] \<and>
      play_rounds [] g r = ([], None, g, r) \<and> play_round i j g r = (Some err, g', r')"
      using c p Some by simp
    then show ?thesis by blast
  next
    case None
    obtain tr2 e2 g2 r2 where rest: "play_rounds cs g1 r1 = (tr2, e2, g2, r2)"
      by (cases "play_rounds cs g1 r1")
    then have e: "tr = (i, j) # tr2" "e2 = Some err" "g2 = g'" "r2 = r'"
      using Cons.prems c p None by simp_all
    have rest': "play_rounds cs g1 r1 = (tr2, Some err, g', r')" using rest e by simp
    obtain pre i' j' rest2 gm rm where d: "cs = pre @ (i', j') # rest2" "tr2 = pre @ [(i', j')]"
      "play_rounds pre g1 r1 = (pre, None, gm, rm)" "play_round i' j' gm rm = (Some err, g', r')"
      using Cons.IH[OF rest'] by blast
    have "c # cs = ((i, j) # pre) @ (i', j') # rest2 \<and> tr = ((i, j) # pre) @ [(i', j')] \<and>
      play_rounds ((i, j) # pre) g r = ((i, j) # pre, None, gm, rm) \<and>
      play_round i' j' gm rm = (Some err, g', r')"
      using d c p None e by simp
    then show ?thesis by blast
  qed
qed

lemma run_raise:
  assumes re: "reachable g" and run: "run g r = (calls, Some err, g', r')"
  shows "\<exists>pre i j rest gm rm x y r1.
            run_calls g = pre @ (i, j) # rest \<and> calls = pre @ [(i, j)] \<and>
            play_rounds pre g r = (pre, None, gm, rm) \<and>
            choose_action (agents gm ! i) (name (agents gm ! j)) rm = (Inr x, r1) \<and>
            choose_action (agents gm ! j) (name (agents gm ! i)) r1 = (Inr y, r') \<and>
            payoff_entry (payoff_matrix g) x y = None \<and>
            err = KeyError (if payoff_matrix g x = None then action_str x else action_str y) \<and>
            g' = recorded i j gm x y"
proof -
  have "play_rounds (run_calls g) g r = (calls, Some err, g', r')" using run by (simp add: run_def)
  then obtain pre i j rest gm rm where d: "run_calls g = pre @ (i, j) # rest" "calls = pre @ [(i, j)]"
      "play_rounds pre g r = (pre, None, gm, rm)" "play_round i j gm rm = (Some err, g', r')"
    using play_rounds_raise by blast
  have v: "valid_calls (length (agents g)) (pre @ (i, j) # rest)"
    using valid_run_calls[of g] d(1) by simp
  then have vp: "valid_calls (length (agents g)) pre" and ij: "i < j" "j < length (agents g)"
    by (simp_all add: valid_calls_append valid_calls_Cons)
  note m = play_rounds_reachable[OF re vp d(3)]
  have rm: "reachable gm" and lm: "length (agents gm) = length (agents g)"
    and pm: "payoff_matrix gm = payoff_matrix g"
    using m by simp_all
  have inv: "agents_inv gm" using rm by (rule reachable_agents_inv)
  have i: "i < length (agents gm)" and j: "j < length (agents gm)" and ne: "i \<noteq> j"
    using ij lm by simp_all
  obtain x y and r1 r2 :: rng where
    c1: "choose_action (agents gm ! i) (name (agents gm ! j)) rm = (Inr x, r1)" and
    c2: "choose_action (agents gm ! j) (name (agents gm ! i)) r1 = (Inr y, r2)" and
    pr: "play_round i j gm rm =
             (case get_payoffs gm x y of
                Inl e \<Rightarrow> (Some e, recorded i j gm x y, r2)
              | Inr (p1, p2) \<Rightarrow> (None, scored i j (recorded i j gm x y) p1 p2, r2))"
    using play_round_closed[OF i j ne agents_inv_nth[OF inv i] agents_inv_nth[OF inv j], of rm]
    by blast
  from pr d(4) have
    "payoff_entry (payoff_matrix g) x y = None \<and>
     err = KeyError (if payoff_matrix g x = None then action_str x else action_str y) \<and>
     g' = recorded i j gm x y \<and> r2 = r'"
    by (auto simp: get_payoffs_entry pm split: option.splits)
  then show ?thesis using d(1,2,3) c1 c2 by blast
qed

lemma run_returns:
  assumes "run g r = (calls, None, g', r')"
  shows "calls = run_calls g"
  using assms by (simp add: run_def play_rounds_trace)

text \<open>
  C5, amended. The constructor does not inspect the payoff matrix: when the
  configuration has its three keys and every agent type is registered, it returns a game
  holding the matrix as given, whatever entries are missing. A missing entry surfaces
  only inside \<^verbatim>\<open>play_round\<close>: on a reachable game, a call on two different agents
  looks up the entry for the two actions that \<^verbatim>\<open>choose_action\<close> returned on the state
  before the round, and either finds it and returns with both histories and both scores
  updated, or raises \<^verbatim>\<open>KeyError\<close> with both histories already extended and no score
  changed. A run that raises has stopped at the first \<^verbatim>\<open>play_round\<close> call of its
  schedule whose two chosen actions have no entry, every earlier call having returned;
  when the matrix has all its entries, every run returns after its full schedule.
\<close>
theorem incomplete_payoffs_raise_in_play:
  assumes "cfg_agents cfg = Some cs" and "cfg_payoff_matrix cfg = Some pm" and "cfg_rounds cfg = Some n"
    and "\<forall>c \<in> set cs. cfg_type c \<in> fst ` set (agent_classes factory)"
  shows "(\<exists>g. PrisonersDilemma_init cfg factory = Inr g \<and> payoff_matrix g = pm) \<and>
         (\<forall>g i j r. reachable g \<and> payoff_matrix g = pm \<and>
              i < length (agents g) \<and> j < length (agents g) \<and> i \<noteq> j \<longrightarrow>
            (\<exists>x y r1 r2.
               choose_action (agents g ! i) (name (agents g ! j)) r = (Inr x, r1) \<and>
               choose_action (agents g ! j) (name (agents g ! i)) r1 = (Inr y, r2) \<and>
               play_round i j g r =
                 (case payoff_entry pm x y of
                    None \<Rightarrow> (Some (KeyError (if pm x = None then action_str x else action_str y)),
                              recorded i j g x y, r2)
                  | Some (p1, p2) \<Rightarrow> (None, scored i j (recorded i j g x y) p1 p2, r2)))) \<and>
         (\<forall>g r calls err g' r'. reachable g \<and> payoff_matrix g = pm \<and>
              run g r = (calls, Some err, g', r') \<longrightarrow>
            (\<exists>pre i j rest gm rm x y r1.
               run_calls g = pre @ (i, j) # rest \<and> calls = pre @ [(i, j)] \<and>
               play_rounds pre g r = (pre, None, gm, rm) \<and>
               choose_action (agents gm ! i) (name (agents gm ! j)) rm = (Inr x, r1) \<and>
               choose_action (agents gm ! j) (name (agents gm ! i)) r1 = (Inr y, r') \<and>
               payoff_entry pm x y = None \<and>
               err = KeyError (if pm x = None then action_str x else action_str y) \<and>
               g' = recorded i j gm x y)) \<and>
         ((\<forall>x y. payoff_entry pm x y \<noteq> None) \<longrightarrow>
            (\<forall>g r. reachable g \<and> payoff_matrix g = pm \<longrightarrow>
               (\<exists>g' r'. run g r = (run_calls g, None, g', r'))))"
proof -
  have one: "\<exists>g. PrisonersDilemma_init cfg factory = Inr g \<and> payoff_matrix g = pm"
  proof -
    have "\<forall>c \<in> set cs. map_of (agent_classes factory) (cfg_type c) \<noteq> None"
      using assms(4) by (simp add: map_of_eq_None_iff)
    then obtain as where "create_agents factory cs = Inr as"
      using create_agents_registered by blast
    then show ?thesis using assms(1,2,3) by (simp add: PrisonersDilemma_init_def)
  qed
  have two: "\<exists>x y r1 r2.
               choose_action (agents g ! i) (name (agents g ! j)) r = (Inr x, r1) \<and>
               choose_action (agents g ! j) (name (agents g ! i)) r1 = (Inr y, r2) \<and>
               play_round i j g r =
                 (case payoff_entry pm x y of
                    None \<Rightarrow> (Some (KeyError (if pm x = None then action_str x else action_str y)),
                              recorded i j g x y, r2)
                  | Some (p1, p2) \<Rightarrow> (None, scored i j (recorded i j g x y) p1 p2, r2))"
    if a: "reachable g \<and> payoff_matrix g = pm \<and> i < length (agents g) \<and> j < length (agents g) \<and> i \<noteq> j"
    for g i j and r :: rng
  proof -
    have inv: "agents_inv g" using a by (simp add: reachable_agents_inv)
    obtain x y and r1 r2 :: rng where
      c1: "choose_action (agents g ! i) (name (agents g ! j)) r = (Inr x, r1)" and
      c2: "choose_action (agents g ! j) (name (agents g ! i)) r1 = (Inr y, r2)" and
      pr: "play_round i j g r =
             (case get_payoffs g x y of
                Inl e \<Rightarrow> (Some e, recorded i j g x y, r2)
              | Inr (p1, p2) \<Rightarrow> (None, scored i j (recorded i j g x y) p1 p2, r2))"
      using play_round_closed[OF _ _ _ agents_inv_nth[OF inv] agents_inv_nth[OF inv], of i j r] a
      by blast
    have "play_round i j g r =
                 (case payoff_entry pm x y of
                    None \<Rightarrow> (Some (KeyError (if pm x = None then action_str x else action_str y)),
                              recorded i j g x y, r2)
                  | Some (p1, p2) \<Rightarrow> (None, scored i j (recorded i j g x y) p1 p2, r2))"
      using pr a by (auto simp: get_payoffs_entry split: option.splits)
    then show ?thesis using c1 c2 by blast
  qed
  have three: "\<exists>pre i j rest gm rm x y r1.
               run_calls g = pre @ (i, j) # rest \<and> calls = pre @ [(i, j)] \<and>
               play_rounds pre g r = (pre, None, gm, rm) \<and>
               choose_action (agents gm ! i) (name (agents gm ! j)) rm = (Inr x, r1) \<and>
               choose_action (agents gm ! j) (name (agents gm ! i)) r1 = (Inr y, r') \<and>
               payoff_entry pm x y = None \<and>
               err = KeyError (if pm x = None then action_str x else action_str y) \<and>
               g' = recorded i j gm x y"
    if a: "reachable g \<and> payoff_matrix g = pm \<and> run g r = (calls, Some err, g', r')"
    for g r calls err g' r'
    using run_raise[of g r calls err g' r'] a by simp
  have four: "\<exists>g' r'. run g r = (run_calls g, None, g', r')"
    if c: "\<forall>x y. payoff_entry pm x y \<noteq> None" and a: "reachable g \<and> payoff_matrix g = pm"
    for g r
  proof -
    obtain calls e g' r' where run: "run g r = (calls, e, g', r')" by (cases "run g r")
    show ?thesis
    proof (cases e)
      case None
      then show ?thesis using run run_returns[of g r calls g' r'] by simp
    next
      case (Some err)
      then have "\<exists>x y. payoff_entry pm x y = None"
        using three[of g r calls err g' r'] a run by blast
      then show ?thesis using c by simp
    qed
  qed
  show ?thesis using one two three four by blast
qed

theorem incomplete_payoffs_raise_in_play_witness:
  "cfg_agents tft_vs_defector_without_dd =
     Some [\<lparr>cfg_type = ''TitForTat'', cfg_name = ''tft''\<rparr>, \<lparr>cfg_type = ''Defector'', cfg_name = ''d''\<rparr>] \<and>
   cfg_payoff_matrix tft_vs_defector_without_dd = Some payoffs_without_dd \<and>
   cfg_rounds tft_vs_defector_without_dd = Some 3 \<and>
   ''TitForTat'' \<in> fst ` set (agent_classes factory) \<and>
   ''Defector'' \<in> fst ` set (agent_classes factory) \<and>
   payoff_entry payoffs_without_dd Defect Defect = None \<and>
   (\<exists>g. PrisonersDilemma_init tft_vs_defector_without_dd factory = Inr g \<and>
        payoff_matrix g = payoffs_without_dd) \<and>
   PrisonersDilemma_init tft_vs_defector_without_dd factory = Inr game_without_dd \<and>
   fst (run game_without_dd no_coins) = [(0, 1), (0, 1)] \<and>
   fst (snd (run game_without_dd no_coins)) = Some (KeyError ''defect'')"
proof -
  have h: "cfg_agents tft_vs_defector_without_dd =
     Some [\<lparr>cfg_type = ''TitForTat'', cfg_name = ''tft''\<rparr>, \<lparr>cfg_type = ''Defector'', cfg_name = ''d''\<rparr>]"
    "cfg_payoff_matrix tft_vs_defector_without_dd = Some payoffs_without_dd"
    "cfg_rounds tft_vs_defector_without_dd = Some 3"
    by (simp_all add: tft_vs_defector_without_dd_def)
  have k: "''TitForTat'' \<in> fst ` set (agent_classes factory)"
    "''Defector'' \<in> fst ` set (agent_classes factory)"
    by (simp_all add: factory_def register_def AgentFactory_init_def)
  have a: "\<forall>c \<in> set [\<lparr>cfg_type = ''TitForTat'', cfg_name = ''tft''\<rparr>, \<lparr>cfg_type = ''Defector'', cfg_name = ''d''\<rparr>].
             cfg_type c \<in> fst ` set (agent_classes factory)"
    using k by simp
  have e: "payoff_entry payoffs_without_dd Defect Defect = None"
    by (simp add: payoff_entry_def payoffs_without_dd_def)
  have "\<exists>g. PrisonersDilemma_init tft_vs_defector_without_dd factory = Inr g \<and>
        payoff_matrix g = payoffs_without_dd"
    using incomplete_payoffs_raise_in_play[OF h a] by (rule conjunct1)
  moreover have "fst (run game_without_dd no_coins) = [(0, 1), (0, 1)]"
    "fst (snd (run game_without_dd no_coins)) = Some (KeyError ''defect'')"
    by (simp_all add: run_without_dd)
  ultimately show ?thesis using h k e init_without_dd by (intro conjI)
qed

subsection \<open>Scores and recorded payoffs\<close>

lemma recorded_payoffs_snoc:
  assumes "length oh = length h"
  shows "recorded_payoffs pm (h @ [x]) (oh @ [y]) = recorded_payoffs pm h oh + payoff_or_zero pm x y"
proof -
  have eq: "(\<Sum>k\<leftarrow>[0..<length h]. payoff_or_zero pm ((h @ [x]) ! k) ((oh @ [y]) ! k)) =
            (\<Sum>k\<leftarrow>[0..<length h]. payoff_or_zero pm (h ! k) (oh ! k))"
    using assms by (intro arg_cong[where f = sum_list] map_cong) (simp_all add: nth_append)
  have last: "(oh @ [y]) ! length h = y" using assms by (metis nth_append_length)
  show ?thesis by (simp add: recorded_payoffs_def eq last)
qed

lemma sum_list_split_key:
  fixes g :: "string \<times> 'v \<Rightarrow> int"
  assumes "distinct (map fst al)"
  shows "sum_list (map g al) =
           (case map_of al k of None \<Rightarrow> 0 | Some v \<Rightarrow> g (k, v)) + sum_list (map g (AList.delete k al))"
  using assms
proof (induction al)
  case Nil
  then show ?case by simp
next
  case (Cons p al)
  obtain k' v' where p: "p = (k', v')" by (cases p)
  show ?case
  proof (cases "k' = k")
    case True
    then have "k \<notin> fst ` set al" using Cons.prems p by auto
    then have "map_of al k = None" "AList.delete k al = al"
      by (simp_all add: map_of_eq_None_iff)
    then show ?thesis using p True by (simp add: AList.delete_eq)
  next
    case False
    then show ?thesis using Cons p by (simp add: AList.delete_eq)
  qed
qed

lemma recomputed_score_appended:
  assumes inv: "agent_inv a"
  shows "recomputed_score pm (appended a k x y) = recomputed_score pm a + payoff_or_zero pm x y"
proof -
  let ?H = "history a" and ?O = "oponent_history a"
  let ?h = "hist_of ?H k" and ?oh = "hist_of ?O k"
  let ?H' = "AList.update k (?h @ [x]) ?H" and ?O' = "AList.update k (?oh @ [y]) ?O"
  let ?g = "\<lambda>(opp, h). recorded_payoffs pm h (hist_of ?O opp)"
  let ?g' = "\<lambda>(opp, h). recorded_payoffs pm h (hist_of ?O' opp)"
  have d: "distinct (map fst ?H)" using inv by (simp add: agent_inv_def)
  then have d': "distinct (map fst ?H')" by (simp add: distinct_update)
  have len: "length ?oh = length ?h" using agent_inv_length[OF inv] .
  have rest: "sum_list (map ?g' (AList.delete k ?H')) = sum_list (map ?g (AList.delete k ?H))"
  proof -
    have "sum_list (map ?g' (AList.delete k ?H)) = sum_list (map ?g (AList.delete k ?H))"
      by (intro arg_cong[where f = sum_list] map_cong)
         (auto simp: AList.delete_eq hist_of_update split: prod.splits)
    then show ?thesis by (simp only: delete_update_same)
  qed
  have new: "recomputed_score pm (appended a k x y) =
               recorded_payoffs pm (?h @ [x]) (?oh @ [y]) + sum_list (map ?g (AList.delete k ?H))"
    using sum_list_split_key[OF d', of ?g' k] rest
    by (simp add: recomputed_score_def appended_def update_conv' hist_of_update)
  have old: "recomputed_score pm a = recorded_payoffs pm ?h ?oh + sum_list (map ?g (AList.delete k ?H))"
    using sum_list_split_key[OF d, of ?g k]
    by (cases "map_of ?H k") (simp_all add: recomputed_score_def hist_of_def recorded_payoffs_def)
  show ?thesis using new old recorded_payoffs_snoc[OF len] by simp
qed

lemma payoffs_recorded_appended:
  assumes inv: "agent_inv a" and rec: "payoffs_recorded pm a" and p: "own_payoff pm x y \<noteq> None"
  shows "payoffs_recorded pm (appended a k x y)"
proof -
  let ?H = "history a" and ?O = "oponent_history a"
  let ?h = "hist_of ?H k" and ?oh = "hist_of ?O k"
  have d: "distinct (map fst ?H)" using inv by (simp add: agent_inv_def)
  have len: "length ?oh = length ?h" using agent_inv_length[OF inv] .
  have old: "own_payoff pm (h ! n) (hist_of ?O opp ! n) \<noteq> None"
    if "(opp, h) \<in> set ?H" "n < length h" for opp h n
    using rec that by (auto simp: payoffs_recorded_def)
  have oldk: "own_payoff pm (?h ! n) (?oh ! n) \<noteq> None" if n: "n < length ?h" for n
  proof (cases "map_of ?H k")
    case None
    then show ?thesis using n by (simp add: hist_of_def)
  next
    case (Some h)
    then have "(k, h) \<in> set ?H" by (rule map_of_SomeD)
    moreover have "?h = h" using Some by (simp add: hist_of_def)
    ultimately show ?thesis using old[of k h n] n by simp
  qed
  have "own_payoff pm (h ! n) (hist_of (oponent_history (appended a k x y)) opp ! n) \<noteq> None"
    if mem: "(opp, h) \<in> set (history (appended a k x y))" and n: "n < length h" for opp h n
  proof -
    have "distinct (map fst (history (appended a k x y)))"
      using d by (simp add: appended_def distinct_update)
    then have m: "map_of (history (appended a k x y)) opp = Some h" using mem by simp
    show ?thesis
    proof (cases "opp = k")
      case True
      then have h: "h = ?h @ [x]" using m by (simp add: appended_def update_conv')
      show ?thesis
      proof (cases "n < length ?h")
        case True
        with oldk[of n] len h \<open>opp = k\<close> show ?thesis
          by (simp add: appended_def hist_of_update nth_append)
      next
        case False
        then have "n = length ?h" using n h by simp
        then show ?thesis using p len h \<open>opp = k\<close>
          by (simp add: appended_def hist_of_update nth_append)
      qed
    next
      case False
      then have "map_of ?H opp = Some h" using m by (simp add: appended_def update_conv')
      then have "(opp, h) \<in> set ?H" by (rule map_of_SomeD)
      then show ?thesis using old[of opp h n] n False by (simp add: appended_def hist_of_update)
    qed
  qed
  then show ?thesis by (auto simp: payoffs_recorded_def)
qed

lemma score_ok_round:
  assumes "score_ok pm a" and "own_payoff pm x y = Some p"
  shows "score_ok pm (update_score (appended a k x y) p)"
proof -
  have inv: "agent_inv a" and sc: "score a = recomputed_score pm a" and rec: "payoffs_recorded pm a"
    using assms(1) by (simp_all add: score_ok_def)
  have "agent_inv (update_score (appended a k x y) p)"
    using agent_inv_appended[OF inv] by (simp add: agent_inv_update_score)
  moreover have "recomputed_score pm (update_score (appended a k x y) p) = recomputed_score pm a + p"
    using recomputed_score_appended[OF inv, of pm k x y] assms(2)
    by (simp add: recomputed_score_def update_score_def payoff_or_zero_def)
  moreover have "score (update_score (appended a k x y) p) = score a + p"
    by (simp add: update_score_def appended_def)
  moreover have "payoffs_recorded pm (update_score (appended a k x y) p)"
    using payoffs_recorded_appended[OF inv rec, of x y k] assms(2)
    by (simp add: payoffs_recorded_def update_score_def)
  ultimately show ?thesis using sc by (simp add: score_ok_def)
qed

lemma symmetric_payoffs_entry:
  assumes "symmetric_payoffs pm"
  shows "payoff_entry pm y x = map_option prod.swap (payoff_entry pm x y)"
proof -
  have a: "\<forall>x \<in> set [Cooperate, Defect]. \<forall>y \<in> set [Cooperate, Defect].
          payoff_entry pm y x = map_option prod.swap (payoff_entry pm x y)"
    using assms by (simp only: symmetric_payoffs_def list_all_iff)
  have x: "x \<in> set [Cooperate, Defect]" by (cases x) simp_all
  have y: "y \<in> set [Cooperate, Defect]" by (cases y) simp_all
  show ?thesis by (rule bspec[OF bspec[OF a x] y])
qed

lemma own_payoffs_of_entry:
  assumes "get_payoffs g x y = Inr (p1, p2)"
  shows "own_payoff (payoff_matrix g) x y = Some p1"
    and "symmetric_payoffs (payoff_matrix g) \<Longrightarrow> own_payoff (payoff_matrix g) y x = Some p2"
proof -
  have e: "payoff_entry (payoff_matrix g) x y = Some (p1, p2)"
    using assms by (simp add: get_payoffs_entry split: option.splits)
  then show "own_payoff (payoff_matrix g) x y = Some p1"
    by (simp add: own_payoff_def payoff_entry_def split: option.splits)
  assume "symmetric_payoffs (payoff_matrix g)"
  then have "payoff_entry (payoff_matrix g) y x = Some (p2, p1)"
    using symmetric_payoffs_entry[of "payoff_matrix g" y x] e by simp
  then show "own_payoff (payoff_matrix g) y x = Some p2"
    by (simp add: own_payoff_def payoff_entry_def split: option.splits)
qed

lemma play_round_score_ok:
  assumes ij: "i < length (agents g)" "j < length (agents g)" "i \<noteq> j"
    and ok: "list_all (score_ok (payoff_matrix g)) (agents g)"
    and sym: "symmetric_payoffs (payoff_matrix g)"
    and p: "play_round i j g r = (None, g', r')"
  shows "list_all (score_ok (payoff_matrix g')) (agents g') \<and> payoff_matrix g' = payoff_matrix g \<and>
         length (agents g') = length (agents g)"
proof -
  have inv: "agents_inv g" using ok by (simp add: agents_inv_def score_ok_def list_all_iff)
  obtain x y p1 p2 where gp: "get_payoffs g x y = Inr (p1, p2)"
    and g': "g' = scored i j (recorded i j g x y) p1 p2"
    using play_round_outcome[OF ij inv p] by auto
  have same: "payoff_matrix g' = payoff_matrix g" "length (agents g') = length (agents g)"
    using g' by (simp_all add: scored_simps recorded_simps)
  have okn: "score_ok (payoff_matrix g) (agents g ! m)" if "m < length (agents g)" for m
    using ok that by (simp add: list_all_length)
  have "score_ok (payoff_matrix g) (agents g' ! m)" if m: "m < length (agents g)" for m
    using m ij okn[of m] okn[of i] okn[of j]
      score_ok_round[OF okn[OF ij(1)] own_payoffs_of_entry(1)[OF gp]]
      score_ok_round[OF okn[OF ij(2)] own_payoffs_of_entry(2)[OF gp sym]]
    by (simp add: g' nth_scored nth_recorded recorded_simps)
  then show ?thesis using same by (simp add: list_all_length)
qed

lemma play_rounds_score_ok:
  "valid_calls (length (agents g)) cs \<Longrightarrow> list_all (score_ok (payoff_matrix g)) (agents g) \<Longrightarrow>
   symmetric_payoffs (payoff_matrix g) \<Longrightarrow> play_rounds cs g r = (tr, None, g', r') \<Longrightarrow>
   list_all (score_ok (payoff_matrix g')) (agents g') \<and> payoff_matrix g' = payoff_matrix g \<and>
   length (agents g') = length (agents g)"
proof (induction cs arbitrary: g r tr)
  case Nil
  then show ?case by simp
next
  case (Cons c cs)
  obtain i j where c: "c = (i, j)" by (cases c)
  obtain e1 g1 r1 where p: "play_round i j g r = (e1, g1, r1)" by (cases "play_round i j g r")
  obtain tr2 e2 g2 r2 where rest: "play_rounds cs g1 r1 = (tr2, e2, g2, r2)"
    by (cases "play_rounds cs g1 r1")
  from Cons.prems(4) c p rest have e: "e1 = None" "e2 = None" "g2 = g'" "r2 = r'"
    by (cases e1; simp)+
  have ij: "i < length (agents g)" "j < length (agents g)" "i \<noteq> j" and v: "valid_calls (length (agents g)) cs"
    using Cons.prems(1) c by (auto simp: valid_calls_Cons)
  have p': "play_round i j g r = (None, g1, r1)" using p e by simp
  have rest': "play_rounds cs g1 r1 = (tr2, None, g', r')" using rest e by simp
  note s1 = play_round_score_ok[OF ij Cons.prems(2,3) p']
  have ok1: "list_all (score_ok (payoff_matrix g1)) (agents g1)" by (rule conjunct1[OF s1])
  have pm1: "payoff_matrix g1 = payoff_matrix g" by (rule conjunct1[OF conjunct2[OF s1]])
  have l1: "length (agents g1) = length (agents g)" by (rule conjunct2[OF conjunct2[OF s1]])
  have v1: "valid_calls (length (agents g1)) cs" using v l1 by simp
  have sym1: "symmetric_payoffs (payoff_matrix g1)" using Cons.prems(3) pm1 by simp
  note s2 = Cons.IH[OF v1 ok1 sym1 rest']
  have "payoff_matrix g' = payoff_matrix g" using conjunct1[OF conjunct2[OF s2]] pm1 by simp
  moreover have "length (agents g') = length (agents g)" using conjunct2[OF conjunct2[OF s2]] l1 by simp
  ultimately show ?case using conjunct1[OF s2] by (intro conjI)
qed

lemma fresh_score_ok: "fresh g \<Longrightarrow> list_all (score_ok pm) (agents g)"
  by (auto simp: fresh_def list_all_iff score_ok_def agent_inv_def recomputed_score_def payoffs_recorded_def)

text \<open>
  C2, amended. When the payoffs are integers and the payoff matrix is symmetric (the
  entry for \<open>(y, x)\<close> is the entry for \<open>(x, y)\<close> exchanged): after a run that returns,
  started on a freshly constructed game, every agent's \<open>score\<close> equals the sum, over
  every opponent key of its \<open>history\<close> and every index recorded under it, of the first
  payoff of the entry for \<open>(history[o][k], oponent_history[o][k])\<close>; and each of these
  entries is in the matrix. The payoffs of this theory are integers (type \<open>int\<close>), so
  the sum does not depend on the order of its terms.
\<close>
theorem score_is_sum_of_recorded_payoffs:
  assumes "PrisonersDilemma_init cfg factory = Inr g0"
    and "run g0 r = (calls, None, g, r')"
    and "symmetric_payoffs (payoff_matrix g0)"
  shows "\<forall>a \<in> set (agents g).
           score a = recomputed_score (payoff_matrix g) a \<and> payoffs_recorded (payoff_matrix g) a"
proof -
  have "list_all (score_ok (payoff_matrix g0)) (agents g0)"
    using init_fresh[OF assms(1)] by (rule fresh_score_ok)
  moreover have "play_rounds (run_calls g0) g0 r = (calls, None, g, r')"
    using assms(2) by (simp add: run_def)
  ultimately have "list_all (score_ok (payoff_matrix g)) (agents g)"
    by (rule conjunct1[OF play_rounds_score_ok[OF valid_run_calls _ assms(3)]])
  then show ?thesis by (simp add: list_all_iff score_ok_def)
qed

lemma standard_payoffs_symmetric: "symmetric_payoffs standard_payoffs"
  by (simp add: symmetric_payoffs_def payoff_entry_def standard_payoffs_def)

theorem score_is_sum_of_recorded_payoffs_witness:
  "PrisonersDilemma_init tft_vs_defector factory = Inr tft_vs_defector_game \<and>
   run tft_vs_defector_game no_coins = ([(0, 1), (0, 1), (0, 1)], None, tft_vs_defector_final, no_coins) \<and>
   symmetric_payoffs (payoff_matrix tft_vs_defector_game) \<and>
   score (agents tft_vs_defector_final ! 0) = 2 \<and>
   recomputed_score standard_payoffs (agents tft_vs_defector_final ! 0) = 2 \<and>
   score (agents tft_vs_defector_final ! 1) = 7 \<and>
   recomputed_score standard_payoffs (agents tft_vs_defector_final ! 1) = 7"
proof -
  have s: "symmetric_payoffs (payoff_matrix tft_vs_defector_game)"
    by (simp add: tft_vs_defector_game_def standard_payoffs_symmetric)
  note t = score_is_sum_of_recorded_payoffs[OF tft_vs_defector_init tft_vs_defector_run[of no_coins] s]
  have m: "agents tft_vs_defector_final ! 0 \<in> set (agents tft_vs_defector_final)"
    "agents tft_vs_defector_final ! 1 \<in> set (agents tft_vs_defector_final)"
    by (simp_all add: tft_vs_defector_final_def)
  have pm: "payoff_matrix tft_vs_defector_final = standard_payoffs"
    by (simp add: tft_vs_defector_final_def)
  have sc: "score (agents tft_vs_defector_final ! 0) = 2" "score (agents tft_vs_defector_final ! 1) = 7"
    by (simp_all add: tft_vs_defector_final_def)
  have "recomputed_score standard_payoffs (agents tft_vs_defector_final ! 0) = 2"
    "recomputed_score standard_payoffs (agents tft_vs_defector_final ! 1) = 7"
    using bspec[OF t m(1)] bspec[OF t m(2)] sc pm by simp_all
  then show ?thesis using tft_vs_defector_init tft_vs_defector_run[of no_coins] s sc by (intro conjI)
qed

lemma cooperators_skewed_init:
  "PrisonersDilemma_init cooperators_skewed factory = Inr cooperators_skewed_game"
  by (simp add: PrisonersDilemma_init_def cooperators_skewed_def cooperators_skewed_game_def factory_def
      register_def AgentFactory_init_def create_def)

lemma cooperators_skewed_run:
  "run cooperators_skewed_game r =
     ([(0, 1)], None,
      \<lparr>agents =
        [(new_agent CooperatorAgent ''c1'')
           \<lparr>history := [(''c2'', [Cooperate])], oponent_history := [(''c2'', [Cooperate])], score := 3\<rparr>,
         (new_agent CooperatorAgent ''c2'')
           \<lparr>history := [(''c1'', [Cooperate])], oponent_history := [(''c1'', [Cooperate])], score := 4\<rparr>],
      payoff_matrix = skewed_payoffs, rounds = 1\<rparr>, r)"
proof -
  have c: "run_calls cooperators_skewed_game = [(0, 1)]"
    by (simp add: run_calls_def round_pairs_def cooperators_skewed_game_def numeral_2_eq_2)
  show ?thesis unfolding run_def c
    by (simp add: cooperators_skewed_game_def play_round_def record_round_def
      choose_action_def set_agent_def new_agent_def Agent_init_def update_history_def update_score_def
      dict_get_def get_payoffs_def skewed_payoffs_def)
qed

text \<open>
  C2, as stated, fails when the payoff matrix is not symmetric, which the constructor
  accepts: with the entry (3, 4) for (cooperate, cooperate), the second of two
  Cooperators receives 4 in the round, while the payoff the matrix assigns to its
  recorded pair (cooperate, cooperate) is 3.
\<close>
theorem score_differs_for_skewed_payoffs:
  "case PrisonersDilemma_init cooperators_skewed factory of
     Inl err \<Rightarrow> False
   | Inr g0 \<Rightarrow>
       (case run g0 no_coins of
          (calls, e, g, r') \<Rightarrow>
            e = None \<and>
            history (agents g ! 1) = [(''c1'', [Cooperate])] \<and>
            oponent_history (agents g ! 1) = [(''c1'', [Cooperate])] \<and>
            get_payoffs g Cooperate Cooperate = Inr (3, 4) \<and>
            score (agents g ! 1) = 4 \<and>
            recomputed_score (payoff_matrix g) (agents g ! 1) = 3)"
  by (simp add: cooperators_skewed_init cooperators_skewed_run)
     (simp add: recomputed_score_def recorded_payoffs_def payoff_or_zero_def own_payoff_def hist_of_def
        get_payoffs_def skewed_payoffs_def)

subsection \<open>A second run\<close>

lemma play_round_length:
  assumes ij: "i < length (agents g)" "j < length (agents g)" "i \<noteq> j"
    and inv: "agents_inv g" and p: "play_round i j g r = (None, g', r')"
    and m: "m < length (agents g)"
  shows "length (hist_of (history (agents g' ! m)) k) =
           length (hist_of (history (agents g ! m)) k) +
           ((if m = i \<and> map name (agents g) ! j = k then 1 else 0) +
            (if m = j \<and> map name (agents g) ! i = k then 1 else 0))"
proof -
  obtain x y p1 p2 where g': "g' = scored i j (recorded i j g x y) p1 p2"
    using play_round_outcome[OF ij inv p] by auto
  show ?thesis using ij m
    by (simp add: g' nth_scored nth_recorded recorded_simps update_score_def appended_def hist_of_update)
qed

lemma play_rounds_length:
  "agents_inv g \<Longrightarrow> valid_calls (length (agents g)) cs \<Longrightarrow>
   play_rounds cs g r = (tr, None, g', r') \<Longrightarrow> m < length (agents g) \<Longrightarrow>
   length (hist_of (history (agents g' ! m)) k) =
     length (hist_of (history (agents g ! m)) k) + plays_against (map name (agents g)) m k cs"
proof (induction cs arbitrary: g r tr)
  case Nil
  then show ?case by simp
next
  case (Cons c cs)
  obtain i j where c: "c = (i, j)" by (cases c)
  obtain e1 g1 r1 where p: "play_round i j g r = (e1, g1, r1)" by (cases "play_round i j g r")
  obtain tr2 e2 g2 r2 where rest: "play_rounds cs g1 r1 = (tr2, e2, g2, r2)"
    by (cases "play_rounds cs g1 r1")
  from Cons.prems(3) c p rest have e: "e1 = None" "e2 = None" "g2 = g'" "r2 = r'"
    by (cases e1; simp)+
  have p': "play_round i j g r = (None, g1, r1)" using p e by simp
  have rest': "play_rounds cs g1 r1 = (tr2, None, g', r')" using rest e by simp
  have ij: "i < length (agents g)" "j < length (agents g)" "i \<noteq> j" and v: "valid_calls (length (agents g)) cs"
    using Cons.prems(2) c by (auto simp: valid_calls_Cons)
  note same = play_round_names[OF ij Cons.prems(1) p']
  have inv1: "agents_inv g1" using play_round_agents_inv[OF ij Cons.prems(1) p'] .
  have v1: "valid_calls (length (agents g1)) cs" using v same(2) by simp
  have m1: "m < length (agents g1)" using Cons.prems(4) same(2) by simp
  have "length (hist_of (history (agents g' ! m)) k) =
     length (hist_of (history (agents g1 ! m)) k) + plays_against (map name (agents g)) m k cs"
    using Cons.IH[OF inv1 v1 rest' m1] same(1) by simp
  then show ?case
    using play_round_length[OF ij Cons.prems(1) p' Cons.prems(4), of k] c by simp
qed

lemma play_rounds_append:
  "play_rounds cs g r = (tr1, None, g1, r1) \<Longrightarrow>
   play_rounds (cs @ ds) g r = (case play_rounds ds g1 r1 of (tr2, res) \<Rightarrow> (tr1 @ tr2, res))"
proof (induction cs arbitrary: g r tr1)
  case Nil
  then show ?case by (simp split: prod.splits)
next
  case (Cons c cs)
  obtain i j where c: "c = (i, j)" by (cases c)
  obtain e1 g' r' where p: "play_round i j g r = (e1, g', r')" by (cases "play_round i j g r")
  obtain tr2 e2 g2 r2 where rest: "play_rounds cs g' r' = (tr2, e2, g2, r2)"
    by (cases "play_rounds cs g' r'")
  from Cons.prems c p rest have e: "e1 = None" "e2 = None" "g2 = g1" "r2 = r1" "tr1 = (i, j) # tr2"
    by (cases e1; simp)+
  have rest': "play_rounds cs g' r' = (tr2, None, g1, r1)" using rest e by simp
  show ?case using Cons.IH[OF rest'] c p e by (simp split: prod.splits)
qed

lemma agent_inv_hist_of_empty:
  assumes "agent_inv a"
  shows "(map_of (history a) k = None) = (hist_of (history a) k = [])"
  using agent_inv_rel[OF assms, of k]
  by (cases "map_of (history a) k"; cases "map_of (oponent_history a) k") (auto simp: hist_of_def)

lemma fresh_hist_of:
  "fresh g \<Longrightarrow> m < length (agents g) \<Longrightarrow> hist_of (history (agents g ! m)) k = []"
  by (simp add: fresh_def list_all_length hist_of_def)

text \<open>
  C8, amended. When \<^verbatim>\<open>run\<close> is called a second time on the game a first run left, and
  both runs return: under every key, each agent's \<open>history\<close> and \<open>oponent_history\<close>
  sequences are exactly twice as long as after the first run, with the same keys; and
  the two runs together are one pass over twice the configured number of rounds. The
  scores are those of that longer pass: the second run plays on from the recorded
  histories.
\<close>
theorem second_run_doubles_histories:
  assumes "PrisonersDilemma_init cfg factory = Inr g0"
    and "run g0 r0 = (calls1, None, g1, r1)"
    and "run g1 r1 = (calls2, None, g2, r2)"
  shows "(\<forall>m < length (agents g0). \<forall>k.
            length (hist_of (history (agents g2 ! m)) k) =
              2 * length (hist_of (history (agents g1 ! m)) k) \<and>
            length (hist_of (oponent_history (agents g2 ! m)) k) =
              2 * length (hist_of (oponent_history (agents g1 ! m)) k) \<and>
            (map_of (history (agents g2 ! m)) k = None) = (map_of (history (agents g1 ! m)) k = None)) \<and>
         play_rounds (concat (replicate (2 * nat (rounds g0)) (round_pairs (length (agents g0))))) g0 r0 =
           (calls1 @ calls2, None, g2, r2)"
proof -
  let ?ns = "map name (agents g0)"
  have re0: "reachable g0" using assms(1) by (rule reachable.constructed_game)
  have fr: "fresh g0" using assms(1) by (rule init_fresh)
  have inv0: "agents_inv g0" using fr by (rule fresh_agents_inv)
  note one = run_reachable[OF re0 assms(2)]
  have inv1: "agents_inv g1" using one(1) by (rule reachable_agents_inv)
  note two = run_reachable[OF one(1) assms(3)]
  have inv2: "agents_inv g2" using two(1) by (rule reachable_agents_inv)
  have calls: "run_calls g1 = run_calls g0" using one by (simp add: run_calls_def)
  have p1: "play_rounds (run_calls g0) g0 r0 = (calls1, None, g1, r1)"
    using assms(2) by (simp add: run_def)
  have p2: "play_rounds (run_calls g0) g1 r1 = (calls2, None, g2, r2)"
    using assms(3) calls by (simp add: run_def)
  have v0: "valid_calls (length (agents g0)) (run_calls g0)" by (rule valid_run_calls)
  have v1: "valid_calls (length (agents g1)) (run_calls g0)" using v0 one(2) by simp
  { fix m k assume m: "m < length (agents g0)"
    have m1: "m < length (agents g1)" using m one(2) by simp
    have m2: "m < length (agents g2)" using m1 two(2) by simp
    have l1: "length (hist_of (history (agents g1 ! m)) k) = plays_against ?ns m k (run_calls g0)"
      using play_rounds_length[OF inv0 v0 p1 m, of k] fresh_hist_of[OF fr m, of k] by simp
    have l2: "length (hist_of (history (agents g2 ! m)) k) =
                length (hist_of (history (agents g1 ! m)) k) + plays_against ?ns m k (run_calls g0)"
      using play_rounds_length[OF inv1 v1 p2 m1, of k] one(3) by simp
    have h: "length (hist_of (history (agents g2 ! m)) k) =
               2 * length (hist_of (history (agents g1 ! m)) k)"
      using l1 l2 by simp
    have o: "length (hist_of (oponent_history (agents g2 ! m)) k) =
               2 * length (hist_of (oponent_history (agents g1 ! m)) k)"
      using h agent_inv_length[OF agents_inv_nth[OF inv1 m1], of k]
        agent_inv_length[OF agents_inv_nth[OF inv2 m2], of k] by simp
    have "(hist_of (history (agents g2 ! m)) k = []) = (hist_of (history (agents g1 ! m)) k = [])"
      using h by (metis length_0_conv mult_is_0 zero_neq_numeral)
    then have "(map_of (history (agents g2 ! m)) k = None) = (map_of (history (agents g1 ! m)) k = None)"
      by (simp only: agent_inv_hist_of_empty[OF agents_inv_nth[OF inv1 m1]]
          agent_inv_hist_of_empty[OF agents_inv_nth[OF inv2 m2]])
    note h o this }
  moreover have "play_rounds (concat (replicate (2 * nat (rounds g0)) (round_pairs (length (agents g0))))) g0 r0 =
           (calls1 @ calls2, None, g2, r2)"
  proof -
    have "concat (replicate (2 * nat (rounds g0)) (round_pairs (length (agents g0)))) =
            run_calls g0 @ run_calls g0"
      by (simp add: run_calls_def mult_2 replicate_add)
    then show ?thesis using play_rounds_append[OF p1, of "run_calls g0"] p2 by simp
  qed
  ultimately show ?thesis by blast
qed

lemma tft_vs_defector_second_run:
  "run tft_vs_defector_final r = ([(0, 1), (0, 1), (0, 1)], None, tft_vs_defector_twice, r)"
proof -
  have c: "run_calls tft_vs_defector_final = [(0, 1), (0, 1), (0, 1)]"
    by (simp add: run_calls_def round_pairs_def tft_vs_defector_final_def numeral_3_eq_3)
  show ?thesis unfolding run_def c
    by (simp add: tft_vs_defector_final_def tft_vs_defector_twice_def play_round_def record_round_def
      choose_action_def set_agent_def new_agent_def Agent_init_def update_history_def update_score_def
      dict_get_def from_end_def TitForTat_choose_def get_payoffs_def standard_payoffs_def)
qed

text \<open>
  C8, as stated, fails in its part on scores: TitForTat against Defector, three rounds,
  both deterministic. After one run the scores are 2 and 7; after the second run they
  are 5 and 10, not 4 and 14, because TitForTat opens the second run with defect.
\<close>
theorem second_run_does_not_double_scores:
  "case PrisonersDilemma_init tft_vs_defector factory of
     Inl err \<Rightarrow> False
   | Inr g0 \<Rightarrow>
       (case run g0 no_coins of
          (calls1, e1, g1, r1) \<Rightarrow>
            (case run g1 r1 of
               (calls2, e2, g2, r2) \<Rightarrow>
                 e1 = None \<and> e2 = None \<and>
                 map cls (agents g0) = [TitForTatAgent, DefectorAgent] \<and>
                 map score (agents g1) = [2, 7] \<and>
                 map score (agents g2) = [5, 10]))"
  by (simp add: tft_vs_defector_init tft_vs_defector_run tft_vs_defector_second_run)
     (simp add: tft_vs_defector_game_def tft_vs_defector_final_def tft_vs_defector_twice_def
        new_agent_def Agent_init_def)

theorem second_run_doubles_histories_witness:
  "PrisonersDilemma_init tft_vs_defector factory = Inr tft_vs_defector_game \<and>
   run tft_vs_defector_game no_coins = ([(0, 1), (0, 1), (0, 1)], None, tft_vs_defector_final, no_coins) \<and>
   run tft_vs_defector_final no_coins = ([(0, 1), (0, 1), (0, 1)], None, tft_vs_defector_twice, no_coins) \<and>
   length (hist_of (history (agents tft_vs_defector_final ! 0)) ''d'') = 3 \<and>
   length (hist_of (history (agents tft_vs_defector_twice ! 0)) ''d'') = 6 \<and>
   play_rounds (concat (replicate (2 * nat (rounds tft_vs_defector_game))
       (round_pairs (length (agents tft_vs_defector_game))))) tft_vs_defector_game no_coins =
     ([(0, 1), (0, 1), (0, 1)] @ [(0, 1), (0, 1), (0, 1)], None, tft_vs_defector_twice, no_coins)"
proof -
  note t = second_run_doubles_histories[OF tft_vs_defector_init tft_vs_defector_run[of no_coins]
      tft_vs_defector_second_run[of no_coins]]
  have l: "length (hist_of (history (agents tft_vs_defector_final ! 0)) ''d'') = 3"
    by (simp add: tft_vs_defector_final_def hist_of_def)
  have "(0::nat) < length (agents tft_vs_defector_game)" by (simp add: tft_vs_defector_game_def)
  then have "length (hist_of (history (agents tft_vs_defector_twice ! 0)) ''d'') =
               2 * length (hist_of (history (agents tft_vs_defector_final ! 0)) ''d'')"
    using conjunct1[OF t] by simp
  then have "length (hist_of (history (agents tft_vs_defector_twice ! 0)) ''d'') = 6"
    using l by simp
  then show ?thesis
    using tft_vs_defector_init tft_vs_defector_run[of no_coins] tft_vs_defector_second_run[of no_coins]
      l conjunct2[OF t]
    by (intro conjI)
qed

end
